theory Spec2Isabelle
  imports Main "HOL-Library.Word" "HOL-Library.Product_Lexorder"
begin

section \<open>The wallet's encrypted key store (src/wallet/crypter.cpp)\<close>

text \<open>
  A shallow embedding of \<^verbatim>\<open>CCrypter\<close> and \<^verbatim>\<open>CCryptoKeyStore\<close>.
  Member functions take the object and return it updated. A \<^verbatim>\<open>bool\<close> function
  with an output parameter returns an \<open>outcome\<close>: the output when it returns true,
  \<open>Failed\<close> when it returns false, \<open>Threw\<close> when a C++ exception leaves it
  (the output parameter is only read by the callers after true was returned).
  \<^verbatim>\<open>int\<close> is a 32-bit two's complement word, \<^verbatim>\<open>size_t\<close> and
  \<^verbatim>\<open>unsigned long long\<close> are 64-bit words.
\<close>

subsection \<open>Data\<close>

type_synonym byte = "8 word"
type_synonym bytes = "byte list"
type_synonym uint256 = "256 word"
type_synonym CKeyID = "160 word"
type_synonym CPubKey = bytes
type_synonym SpendingKey = uint256
type_synonym ViewingKey = uint256
type_synonym PaymentAddress = "uint256 \<times> uint256"

datatype CKey = CKey (fValid: bool) (fCompressed: bool) (vch: bytes)

datatype 'a outcome = Ok 'a | Failed | Threw

text \<open>
  What crypter.cpp takes from elsewhere and is not under src/: the constants of libsodium
  and of crypter.h, the libsodium primitives, the compact-size reader of the serialisation
  layer, and the key, public key, spending key and payment address classes. They are
  parameters of the model. A primitive that fills a caller's buffer returns its return code
  and the bytes it wrote; \<open>ReadCompactSize\<close> and the spending key's stream extraction
  return \<open>None\<close> where they raise; \<open>Key_Set\<close> is the key that \<^verbatim>\<open>CKey::Set\<close>
  leaves, \<open>Key_secret\<close> the bytes between \<^verbatim>\<open>key.begin()\<close> and \<^verbatim>\<open>key.end()\<close>.
\<close>

record ext =
  crypto_secretbox_MACBYTES :: nat
  WALLET_CRYPTO_SALT_SIZE :: nat
  SerializedSpendingKeySize :: nat
  crypto_secretbox_easy :: "bytes \<Rightarrow> 64 word \<Rightarrow> bytes \<Rightarrow> bytes \<Rightarrow> int \<times> bytes"
  crypto_secretbox_open_easy :: "bytes \<Rightarrow> 64 word \<Rightarrow> bytes \<Rightarrow> bytes \<Rightarrow> int \<times> bytes"
  crypto_pwhash :: "nat \<Rightarrow> bytes \<Rightarrow> bytes \<Rightarrow> 64 word \<Rightarrow> 64 word \<Rightarrow> int \<times> bytes"
  ReadCompactSize :: "bytes \<Rightarrow> 64 word option"
  PubKey_GetID :: "CPubKey \<Rightarrow> CKeyID"
  PubKey_GetHash :: "CPubKey \<Rightarrow> uint256"
  PubKey_IsCompressed :: "CPubKey \<Rightarrow> bool"
  Key_secret :: "CKey \<Rightarrow> bytes"
  Key_GetPubKey :: "CKey \<Rightarrow> CPubKey"
  Key_Set :: "bytes \<Rightarrow> bool \<Rightarrow> CKey"
  Key_VerifyPubKey :: "CKey \<Rightarrow> CPubKey \<Rightarrow> bool"
  SK_address :: "SpendingKey \<Rightarrow> PaymentAddress"
  SK_viewing_key :: "SpendingKey \<Rightarrow> ViewingKey"
  SK_serialize :: "SpendingKey \<Rightarrow> bytes"
  SK_deserialize :: "bytes \<Rightarrow> SpendingKey option"
  Addr_GetHash :: "PaymentAddress \<Rightarrow> uint256"

text \<open>Modelled from the spec: \<^verbatim>\<open>WALLET_CRYPTO_KEY_SIZE\<close> of crypter.h is not under
  src/; the spec gives the key and the IV 32 bytes each.\<close>

definition WALLET_CRYPTO_KEY_SIZE :: nat where
  "WALLET_CRYPTO_KEY_SIZE = 32"

text \<open>The bytes of a \<^verbatim>\<open>uint256\<close> in memory, as \<^verbatim>\<open>memcpy\<close> reads them.\<close>

definition uint256_bytes :: "uint256 \<Rightarrow> bytes" where
  "uint256_bytes w = map (\<lambda>i. ucast (drop_bit (8 * i) w)) [0..<32]"

text \<open>Writing \<open>src\<close> at the start of the buffer \<open>dst\<close>: the buffer keeps its size.\<close>

definition store_bytes :: "bytes \<Rightarrow> bytes \<Rightarrow> bytes" where
  "store_bytes dst src = take (length dst) (src @ drop (length src) dst)"

subsection \<open>CCrypter\<close>

record CCrypter =
  chKey :: bytes
  chIV :: bytes
  fKeySet :: bool

text \<open>The constructor clears \<open>fKeySet\<close>; the two arrays are not initialised in C++
  and are zero here.\<close>

definition CCrypter_new :: CCrypter where
  "CCrypter_new =
     \<lparr>chKey = replicate WALLET_CRYPTO_KEY_SIZE 0, chIV = replicate WALLET_CRYPTO_KEY_SIZE 0,
      fKeySet = False\<rparr>"

definition SetKeyFromPassphrase ::
  "ext \<Rightarrow> bytes \<Rightarrow> bytes \<Rightarrow> 32 word \<Rightarrow> 32 word \<Rightarrow> bytes \<Rightarrow> CCrypter \<Rightarrow> bool \<times> CCrypter" where
  "SetKeyFromPassphrase X strKeyData chSalt nRounds nDerivationMethod vchOtherDerivationParameters c =
     (if nRounds < 1 \<or> length chSalt \<noteq> WALLET_CRYPTO_SALT_SIZE X then (False, c)
      else if nDerivationMethod = 0 then
        (case ReadCompactSize X vchOtherDerivationParameters of
           None \<Rightarrow> (False, c)
         | Some memlimit \<Rightarrow>
             (case crypto_pwhash X (2 * WALLET_CRYPTO_KEY_SIZE) strKeyData chSalt (ucast nRounds) memlimit of
                (rc, written) \<Rightarrow>
                  if rc \<noteq> 0 then (False, c)
                  else
                    let chOut = store_bytes (replicate (2 * WALLET_CRYPTO_KEY_SIZE) 0) written
                    in (True, c\<lparr>chKey := take WALLET_CRYPTO_KEY_SIZE chOut,
                                 chIV := take WALLET_CRYPTO_KEY_SIZE (drop WALLET_CRYPTO_KEY_SIZE chOut),
                                 fKeySet := True\<rparr>)))
      else (True, c\<lparr>fKeySet := True\<rparr>))"

definition SetKey :: "bytes \<Rightarrow> bytes \<Rightarrow> CCrypter \<Rightarrow> bool \<times> CCrypter" where
  "SetKey chNewKey chNewIV c =
     (if length chNewKey \<noteq> WALLET_CRYPTO_KEY_SIZE \<or> length chNewIV \<noteq> WALLET_CRYPTO_KEY_SIZE
      then (False, c)
      else (True, c\<lparr>chKey := take WALLET_CRYPTO_KEY_SIZE chNewKey,
                     chIV := take WALLET_CRYPTO_KEY_SIZE chNewIV,
                     fKeySet := True\<rparr>))"

text \<open>
  \<^verbatim>\<open>int nLen = v.size()\<close> narrows the size to 32 bits; the sum and the difference
  with the unsigned constant wrap. The vector constructor takes a \<^verbatim>\<open>size_t\<close>: a
  negative \<^verbatim>\<open>int\<close> converts to a size above \<^verbatim>\<open>max_size()\<close> and the
  constructor raises (\<^verbatim>\<open>std::length_error\<close>) before the primitive is called.
  The length handed to the primitive is the \<^verbatim>\<open>int\<close> converted to
  \<^verbatim>\<open>unsigned long long\<close>.
\<close>

definition Encrypt :: "ext \<Rightarrow> CCrypter \<Rightarrow> bytes \<Rightarrow> bytes outcome" where
  "Encrypt X c vchPlaintext =
     (if \<not> fKeySet c then Failed
      else
        let nLen = (of_nat (length vchPlaintext) :: 32 word);
            nCLen = nLen + of_nat (crypto_secretbox_MACBYTES X)
        in if sint nCLen < 0 then Threw
           else
             (case crypto_secretbox_easy X vchPlaintext (scast nLen) (chIV c) (chKey c) of
                (rc, written) \<Rightarrow>
                  if rc = 0 then Ok (store_bytes (replicate (nat (sint nCLen)) 0) written)
                  else Failed))"

definition Decrypt :: "ext \<Rightarrow> CCrypter \<Rightarrow> bytes \<Rightarrow> bytes outcome" where
  "Decrypt X c vchCiphertext =
     (if \<not> fKeySet c then Failed
      else
        let nLen = (of_nat (length vchCiphertext) :: 32 word);
            nPLen = nLen - of_nat (crypto_secretbox_MACBYTES X)
        in if sint nPLen < 0 then Threw
           else
             (case crypto_secretbox_open_easy X vchCiphertext (scast nLen) (chIV c) (chKey c) of
                (rc, written) \<Rightarrow>
                  if rc = 0 then Ok (store_bytes (replicate (nat (sint nPLen)) 0) written)
                  else Failed))"

definition EncryptSecret :: "ext \<Rightarrow> bytes \<Rightarrow> bytes \<Rightarrow> uint256 \<Rightarrow> bytes outcome" where
  "EncryptSecret X vMasterKey vchPlaintext nIV =
     (case SetKey vMasterKey (uint256_bytes nIV) CCrypter_new of
        (False, cKeyCrypter) \<Rightarrow> Failed
      | (True, cKeyCrypter) \<Rightarrow> Encrypt X cKeyCrypter vchPlaintext)"

definition DecryptSecret :: "ext \<Rightarrow> bytes \<Rightarrow> bytes \<Rightarrow> uint256 \<Rightarrow> bytes outcome" where
  "DecryptSecret X vMasterKey vchCiphertext nIV =
     (case SetKey vMasterKey (uint256_bytes nIV) CCrypter_new of
        (False, cKeyCrypter) \<Rightarrow> Failed
      | (True, cKeyCrypter) \<Rightarrow> Decrypt X cKeyCrypter vchCiphertext)"

definition DecryptKey :: "ext \<Rightarrow> bytes \<Rightarrow> bytes \<Rightarrow> CPubKey \<Rightarrow> CKey outcome" where
  "DecryptKey X vMasterKey vchCryptedSecret vchPubKey =
     (case DecryptSecret X vMasterKey vchCryptedSecret (PubKey_GetHash X vchPubKey) of
        Threw \<Rightarrow> Threw
      | Failed \<Rightarrow> Failed
      | Ok vchSecret \<Rightarrow>
          if length vchSecret \<noteq> 32 then Failed
          else
            let key = Key_Set X vchSecret (PubKey_IsCompressed X vchPubKey)
            in if Key_VerifyPubKey X key vchPubKey then Ok key else Failed)"

definition DecryptSpendingKey :: "ext \<Rightarrow> bytes \<Rightarrow> bytes \<Rightarrow> PaymentAddress \<Rightarrow> SpendingKey outcome" where
  "DecryptSpendingKey X vMasterKey vchCryptedSecret address =
     (case DecryptSecret X vMasterKey vchCryptedSecret (Addr_GetHash X address) of
        Threw \<Rightarrow> Threw
      | Failed \<Rightarrow> Failed
      | Ok vchSecret \<Rightarrow>
          if length vchSecret \<noteq> SerializedSpendingKeySize X then Failed
          else
            (case SK_deserialize X vchSecret of
               None \<Rightarrow> Threw
             | Some sk \<Rightarrow> if SK_address X sk = address then Ok sk else Failed))"

subsection \<open>The maps of the store\<close>

text \<open>
  A \<^verbatim>\<open>std::map\<close> is the list of its entries in key order, which is the order the
  iterators of \<open>Unlock\<close> and \<open>EncryptKeys\<close> visit. \<open>map_assign\<close> is
  \<^verbatim>\<open>m[k] = v\<close>, \<open>map_insert\<close> is \<^verbatim>\<open>m.insert(make_pair(k, v))\<close>, which keeps
  an entry that is already there, \<open>map_find\<close> is \<^verbatim>\<open>m.find(k)\<close>.
\<close>

fun map_assign :: "'k::linorder \<Rightarrow> 'v \<Rightarrow> ('k \<times> 'v) list \<Rightarrow> ('k \<times> 'v) list" where
  "map_assign k v [] = [(k, v)]"
| "map_assign k v (e # m) =
     (if k < fst e then (k, v) # e # m
      else if k = fst e then (k, v) # m
      else e # map_assign k v m)"

fun map_insert :: "'k::linorder \<Rightarrow> 'v \<Rightarrow> ('k \<times> 'v) list \<Rightarrow> ('k \<times> 'v) list" where
  "map_insert k v [] = [(k, v)]"
| "map_insert k v (e # m) =
     (if k < fst e then (k, v) # e # m
      else if k = fst e then e # m
      else e # map_insert k v m)"


subsection \<open>CCryptoKeyStore\<close>

text \<open>
  The fields of \<^verbatim>\<open>CCryptoKeyStore\<close> and of its base \<^verbatim>\<open>CBasicKeyStore\<close>. A note
  decryptor is the viewing key it is built from. \<open>nStatusChanged\<close> counts the
  \<^verbatim>\<open>NotifyStatusChanged\<close> signals sent so far.
\<close>

record CCryptoKeyStore =
  mapKeys :: "(CKeyID \<times> CKey) list"
  mapSpendingKeys :: "(PaymentAddress \<times> SpendingKey) list"
  mapNoteDecryptors :: "(PaymentAddress \<times> ViewingKey) list"
  mapCryptedKeys :: "(CKeyID \<times> CPubKey \<times> bytes) list"
  mapCryptedSpendingKeys :: "(PaymentAddress \<times> bytes) list"
  vMasterKey :: bytes
  fUseCrypto :: bool
  fDecryptionThoroughlyChecked :: bool
  nStatusChanged :: nat

definition CCryptoKeyStore_new :: CCryptoKeyStore where
  "CCryptoKeyStore_new =
     \<lparr>mapKeys = [], mapSpendingKeys = [], mapNoteDecryptors = [], mapCryptedKeys = [],
      mapCryptedSpendingKeys = [], vMasterKey = [], fUseCrypto = False,
      fDecryptionThoroughlyChecked = False, nStatusChanged = 0\<rparr>"

text \<open>
  How a member function that changes the store ends: it returns a \<^verbatim>\<open>bool\<close>, an
  exception leaves it, or \<^verbatim>\<open>assert(false)\<close> ends the process. The store is the one
  at that moment.
\<close>

datatype status = Ret bool | Exn | Abort

text \<open>Modelled from the spec: \<^verbatim>\<open>IsCrypted\<close> is defined in crypter.h, which is not
  under src/. The store is in encrypted mode when its one-way mode flag is set.\<close>

definition IsCrypted :: "CCryptoKeyStore \<Rightarrow> bool" where
  "IsCrypted s = fUseCrypto s"

text \<open>Modelled from the spec: \<^verbatim>\<open>IsLocked\<close> is defined in crypter.h, which is not
  under src/. A store in encrypted mode is locked when no master key is held (the master
  key is cleared while locked); a plain store is not locked.\<close>

definition IsLocked :: "CCryptoKeyStore \<Rightarrow> bool" where
  "IsLocked s = (if \<not> IsCrypted s then False else vMasterKey s = [])"

text \<open>Modelled from the spec: \<^verbatim>\<open>CBasicKeyStore::AddKeyPubKey\<close> (keystore.cpp) is not
  under src/. In plain mode the key is inserted directly into the plaintext map, under the
  identity of its public key.\<close>

definition CBasicKeyStore_AddKeyPubKey ::
  "ext \<Rightarrow> CKey \<Rightarrow> CPubKey \<Rightarrow> CCryptoKeyStore \<Rightarrow> status \<times> CCryptoKeyStore" where
  "CBasicKeyStore_AddKeyPubKey X key pubkey s =
     (Ret True, s\<lparr>mapKeys := map_assign (PubKey_GetID X pubkey) key (mapKeys s)\<rparr>)"


text \<open>Modelled from the spec: \<^verbatim>\<open>CBasicKeyStore::AddSpendingKey\<close> (keystore.cpp) is not
  under src/. In plain mode the spending key is inserted directly into the plaintext map
  under its payment address, and the decryptor of its viewing key is cached at insertion.\<close>

definition CBasicKeyStore_AddSpendingKey ::
  "ext \<Rightarrow> SpendingKey \<Rightarrow> CCryptoKeyStore \<Rightarrow> status \<times> CCryptoKeyStore" where
  "CBasicKeyStore_AddSpendingKey X sk s =
     (let address = SK_address X sk
      in (Ret True,
          s\<lparr>mapSpendingKeys := map_assign address sk (mapSpendingKeys s),
            mapNoteDecryptors := map_insert address (SK_viewing_key X sk) (mapNoteDecryptors s)\<rparr>))"

definition SetCrypted :: "CCryptoKeyStore \<Rightarrow> bool \<times> CCryptoKeyStore" where
  "SetCrypted s =
     (if fUseCrypto s then (True, s)
      else if \<not> (mapKeys s = [] \<and> mapSpendingKeys s = []) then (False, s)
      else (True, s\<lparr>fUseCrypto := True\<rparr>))"

definition Lock :: "CCryptoKeyStore \<Rightarrow> bool \<times> CCryptoKeyStore" where
  "Lock s =
     (case SetCrypted s of
        (False, s1) \<Rightarrow> (False, s1)
      | (True, s1) \<Rightarrow> (True, s1\<lparr>vMasterKey := [], nStatusChanged := Suc (nStatusChanged s1)\<rparr>))"

text \<open>
  The two loops of \<open>Unlock\<close> carry \<open>keyPass\<close> and \<open>keyFail\<close>. \<open>raised\<close> is set
  when an exception leaves a decryption, and \<open>attempts\<close> lists how each call of
  \<open>DecryptKey\<close> and \<open>DecryptSpendingKey\<close> ended, in the order of the calls; the
  control flow does not read it.
\<close>

datatype attempt = Decrypted | Rejected | Raised

record scan =
  keyPass :: bool
  keyFail :: bool
  raised :: bool
  attempts :: "attempt list"

definition scan_start :: scan where
  "scan_start = \<lparr>keyPass = False, keyFail = False, raised = False, attempts = []\<rparr>"

fun Unlock_keys ::
  "ext \<Rightarrow> bytes \<Rightarrow> bool \<Rightarrow> (CKeyID \<times> CPubKey \<times> bytes) list \<Rightarrow> scan \<Rightarrow> scan" where
  "Unlock_keys X vMasterKeyIn checked [] st = st"
| "Unlock_keys X vMasterKeyIn checked (mi # rest) st =
     (case DecryptKey X vMasterKeyIn (snd (snd mi)) (fst (snd mi)) of
        Threw \<Rightarrow> st\<lparr>raised := True, attempts := attempts st @ [Raised]\<rparr>
      | Failed \<Rightarrow> st\<lparr>keyFail := True, attempts := attempts st @ [Rejected]\<rparr>
      | Ok key \<Rightarrow>
          if checked then st\<lparr>keyPass := True, attempts := attempts st @ [Decrypted]\<rparr>
          else Unlock_keys X vMasterKeyIn checked rest
                 (st\<lparr>keyPass := True, attempts := attempts st @ [Decrypted]\<rparr>))"

fun Unlock_spending_keys ::
  "ext \<Rightarrow> bytes \<Rightarrow> bool \<Rightarrow> (PaymentAddress \<times> bytes) list \<Rightarrow> scan \<Rightarrow> scan" where
  "Unlock_spending_keys X vMasterKeyIn checked [] st = st"
| "Unlock_spending_keys X vMasterKeyIn checked (skmi # rest) st =
     (case DecryptSpendingKey X vMasterKeyIn (snd skmi) (fst skmi) of
        Threw \<Rightarrow> st\<lparr>raised := True, attempts := attempts st @ [Raised]\<rparr>
      | Failed \<Rightarrow> st\<lparr>keyFail := True, attempts := attempts st @ [Rejected]\<rparr>
      | Ok sk \<Rightarrow>
          if checked then st\<lparr>keyPass := True, attempts := attempts st @ [Decrypted]\<rparr>
          else Unlock_spending_keys X vMasterKeyIn checked rest
                 (st\<lparr>keyPass := True, attempts := attempts st @ [Decrypted]\<rparr>))"

definition Unlock_scan :: "ext \<Rightarrow> bytes \<Rightarrow> CCryptoKeyStore \<Rightarrow> scan" where
  "Unlock_scan X vMasterKeyIn s =
     (let st = Unlock_keys X vMasterKeyIn (fDecryptionThoroughlyChecked s) (mapCryptedKeys s) scan_start
      in if raised st then st
         else Unlock_spending_keys X vMasterKeyIn (fDecryptionThoroughlyChecked s)
                (mapCryptedSpendingKeys s) st)"

definition Unlock :: "ext \<Rightarrow> bytes \<Rightarrow> CCryptoKeyStore \<Rightarrow> status \<times> CCryptoKeyStore" where
  "Unlock X vMasterKeyIn s =
     (case SetCrypted s of
        (False, s1) \<Rightarrow> (Ret False, s1)
      | (True, s1) \<Rightarrow>
          let st = Unlock_scan X vMasterKeyIn s1
          in if raised st then (Exn, s1)
             else if keyPass st \<and> keyFail st then (Abort, s1)
             else if keyFail st \<or> \<not> keyPass st then (Ret False, s1)
             else (Ret True,
                   s1\<lparr>vMasterKey := vMasterKeyIn, fDecryptionThoroughlyChecked := True,
                      nStatusChanged := Suc (nStatusChanged s1)\<rparr>))"

text \<open>The decryptions one call of \<open>Unlock\<close> attempts, in order.\<close>

definition Unlock_attempts :: "ext \<Rightarrow> bytes \<Rightarrow> CCryptoKeyStore \<Rightarrow> attempt list" where
  "Unlock_attempts X vMasterKeyIn s =
     (case SetCrypted s of
        (False, s1) \<Rightarrow> []
      | (True, s1) \<Rightarrow> attempts (Unlock_scan X vMasterKeyIn s1))"

definition AddCryptedKey :: "ext \<Rightarrow> CPubKey \<Rightarrow> bytes \<Rightarrow> CCryptoKeyStore \<Rightarrow> bool \<times> CCryptoKeyStore" where
  "AddCryptedKey X vchPubKey vchCryptedSecret s =
     (case SetCrypted s of
        (False, s1) \<Rightarrow> (False, s1)
      | (True, s1) \<Rightarrow>
          (True, s1\<lparr>mapCryptedKeys :=
                      map_assign (PubKey_GetID X vchPubKey) (vchPubKey, vchCryptedSecret)
                        (mapCryptedKeys s1)\<rparr>))"

definition AddKeyPubKey ::
  "ext \<Rightarrow> CKey \<Rightarrow> CPubKey \<Rightarrow> CCryptoKeyStore \<Rightarrow> status \<times> CCryptoKeyStore" where
  "AddKeyPubKey X key pubkey s =
     (if \<not> IsCrypted s then CBasicKeyStore_AddKeyPubKey X key pubkey s
      else if IsLocked s then (Ret False, s)
      else
        (case EncryptSecret X (vMasterKey s) (Key_secret X key) (PubKey_GetHash X pubkey) of
           Threw \<Rightarrow> (Exn, s)
         | Failed \<Rightarrow> (Ret False, s)
         | Ok vchCryptedSecret \<Rightarrow>
             (case AddCryptedKey X pubkey vchCryptedSecret s of
                (False, s1) \<Rightarrow> (Ret False, s1)
              | (True, s1) \<Rightarrow> (Ret True, s1))))"


definition AddCryptedSpendingKey ::
  "PaymentAddress \<Rightarrow> ViewingKey \<Rightarrow> bytes \<Rightarrow> CCryptoKeyStore \<Rightarrow> bool \<times> CCryptoKeyStore" where
  "AddCryptedSpendingKey address vk vchCryptedSecret s =
     (case SetCrypted s of
        (False, s1) \<Rightarrow> (False, s1)
      | (True, s1) \<Rightarrow>
          (True, s1\<lparr>mapCryptedSpendingKeys :=
                      map_assign address vchCryptedSecret (mapCryptedSpendingKeys s1),
                    mapNoteDecryptors := map_insert address vk (mapNoteDecryptors s1)\<rparr>))"

definition AddSpendingKey :: "ext \<Rightarrow> SpendingKey \<Rightarrow> CCryptoKeyStore \<Rightarrow> status \<times> CCryptoKeyStore" where
  "AddSpendingKey X sk s =
     (if \<not> IsCrypted s then CBasicKeyStore_AddSpendingKey X sk s
      else if IsLocked s then (Ret False, s)
      else
        let address = SK_address X sk
        in (case EncryptSecret X (vMasterKey s) (SK_serialize X sk) (Addr_GetHash X address) of
              Threw \<Rightarrow> (Exn, s)
            | Failed \<Rightarrow> (Ret False, s)
            | Ok vchCryptedSecret \<Rightarrow>
                (case AddCryptedSpendingKey address (SK_viewing_key X sk) vchCryptedSecret s of
                   (False, s1) \<Rightarrow> (Ret False, s1)
                 | (True, s1) \<Rightarrow> (Ret True, s1))))"

text \<open>The two \<^verbatim>\<open>BOOST_FOREACH\<close> loops of \<open>EncryptKeys\<close>, over the plaintext entries
  as they were when the loop started.\<close>

fun EncryptKeys_keys ::
  "ext \<Rightarrow> bytes \<Rightarrow> (CKeyID \<times> CKey) list \<Rightarrow> CCryptoKeyStore \<Rightarrow> status \<times> CCryptoKeyStore" where
  "EncryptKeys_keys X vMasterKeyIn [] s = (Ret True, s)"
| "EncryptKeys_keys X vMasterKeyIn (mKey # rest) s =
     (let key = snd mKey; vchPubKey = Key_GetPubKey X key
      in (case EncryptSecret X vMasterKeyIn (Key_secret X key) (PubKey_GetHash X vchPubKey) of
            Threw \<Rightarrow> (Exn, s)
          | Failed \<Rightarrow> (Ret False, s)
          | Ok vchCryptedSecret \<Rightarrow>
              (case AddCryptedKey X vchPubKey vchCryptedSecret s of
                 (False, s1) \<Rightarrow> (Ret False, s1)
               | (True, s1) \<Rightarrow> EncryptKeys_keys X vMasterKeyIn rest s1)))"

fun EncryptKeys_spending_keys ::
  "ext \<Rightarrow> bytes \<Rightarrow> (PaymentAddress \<times> SpendingKey) list \<Rightarrow> CCryptoKeyStore
     \<Rightarrow> status \<times> CCryptoKeyStore" where
  "EncryptKeys_spending_keys X vMasterKeyIn [] s = (Ret True, s)"
| "EncryptKeys_spending_keys X vMasterKeyIn (mSpendingKey # rest) s =
     (let sk = snd mSpendingKey; address = SK_address X sk
      in (case EncryptSecret X vMasterKeyIn (SK_serialize X sk) (Addr_GetHash X address) of
            Threw \<Rightarrow> (Exn, s)
          | Failed \<Rightarrow> (Ret False, s)
          | Ok vchCryptedSecret \<Rightarrow>
              (case AddCryptedSpendingKey address (SK_viewing_key X sk) vchCryptedSecret s of
                 (False, s1) \<Rightarrow> (Ret False, s1)
               | (True, s1) \<Rightarrow> EncryptKeys_spending_keys X vMasterKeyIn rest s1)))"

definition EncryptKeys :: "ext \<Rightarrow> bytes \<Rightarrow> CCryptoKeyStore \<Rightarrow> status \<times> CCryptoKeyStore" where
  "EncryptKeys X vMasterKeyIn s =
     (if mapCryptedKeys s \<noteq> [] \<or> IsCrypted s then (Ret False, s)
      else
        (case EncryptKeys_keys X vMasterKeyIn (mapKeys s) (s\<lparr>fUseCrypto := True\<rparr>) of
           (Ret True, s1) \<Rightarrow>
             (case EncryptKeys_spending_keys X vMasterKeyIn (mapSpendingKeys s1) (s1\<lparr>mapKeys := []\<rparr>) of
                (Ret True, s2) \<Rightarrow> (Ret True, s2\<lparr>mapSpendingKeys := []\<rparr>)
              | (r, s2) \<Rightarrow> (r, s2))
         | (r, s1) \<Rightarrow> (r, s1)))"

subsection \<open>Sequences of calls\<close>

text \<open>The member functions that change the store, as one step function, and a run of
  calls from a client. After \<open>Abort\<close> the process is gone and no later call runs;
  after an exception the client goes on with the store as it was left.\<close>

datatype op =
    OpSetCrypted
  | OpLock
  | OpUnlock bytes
  | OpAddKeyPubKey CKey CPubKey
  | OpAddCryptedKey CPubKey bytes
  | OpAddSpendingKey SpendingKey
  | OpAddCryptedSpendingKey PaymentAddress ViewingKey bytes
  | OpEncryptKeys bytes

fun step :: "ext \<Rightarrow> op \<Rightarrow> CCryptoKeyStore \<Rightarrow> status \<times> CCryptoKeyStore" where
  "step X OpSetCrypted s = (case SetCrypted s of (b, s1) \<Rightarrow> (Ret b, s1))"
| "step X OpLock s = (case Lock s of (b, s1) \<Rightarrow> (Ret b, s1))"
| "step X (OpUnlock vMasterKeyIn) s = Unlock X vMasterKeyIn s"
| "step X (OpAddKeyPubKey key pubkey) s = AddKeyPubKey X key pubkey s"
| "step X (OpAddCryptedKey vchPubKey vchCryptedSecret) s =
     (case AddCryptedKey X vchPubKey vchCryptedSecret s of (b, s1) \<Rightarrow> (Ret b, s1))"
| "step X (OpAddSpendingKey sk) s = AddSpendingKey X sk s"
| "step X (OpAddCryptedSpendingKey address vk vchCryptedSecret) s =
     (case AddCryptedSpendingKey address vk vchCryptedSecret s of (b, s1) \<Rightarrow> (Ret b, s1))"
| "step X (OpEncryptKeys vMasterKeyIn) s = EncryptKeys X vMasterKeyIn s"

fun run :: "ext \<Rightarrow> op list \<Rightarrow> CCryptoKeyStore \<Rightarrow> CCryptoKeyStore" where
  "run X [] s = s"
| "run X (c # cs) s =
     (case step X c s of
        (Abort, s1) \<Rightarrow> s1
      | (r, s1) \<Rightarrow> run X cs s1)"

subsection \<open>Vocabulary for the properties of \<open>Unlock\<close>\<close>

text \<open>
  These definitions embed no source function; the properties below are stated with them.
  \<open>key_attempt\<close> and \<open>spending_key_attempt\<close> name how the decryption of one record
  ends. \<open>until_failure\<close> is a list up to and including its first element that is not
  \<open>Decrypted\<close>; \<open>walked\<close> is the part of a list of attempts one loop of \<open>Unlock\<close>
  makes, \<open>scan_add\<close> what these attempts do to the flags of the loop, and
  \<open>scan_attempts\<close> the attempts of the two loops together.
\<close>

definition key_attempt :: "ext \<Rightarrow> bytes \<Rightarrow> CKeyID \<times> CPubKey \<times> bytes \<Rightarrow> attempt" where
  "key_attempt X mk mi =
     (case DecryptKey X mk (snd (snd mi)) (fst (snd mi)) of
        Ok key \<Rightarrow> Decrypted | Failed \<Rightarrow> Rejected | Threw \<Rightarrow> Raised)"

definition spending_key_attempt :: "ext \<Rightarrow> bytes \<Rightarrow> PaymentAddress \<times> bytes \<Rightarrow> attempt" where
  "spending_key_attempt X mk skmi =
     (case DecryptSpendingKey X mk (snd skmi) (fst skmi) of
        Ok sk \<Rightarrow> Decrypted | Failed \<Rightarrow> Rejected | Threw \<Rightarrow> Raised)"

fun until_failure :: "attempt list \<Rightarrow> attempt list" where
  "until_failure [] = []"
| "until_failure (a # as) = (if a = Decrypted then a # until_failure as else [a])"

definition walked :: "bool \<Rightarrow> attempt list \<Rightarrow> attempt list" where
  "walked checked as = (if checked then take 1 as else until_failure as)"

definition scan_add :: "scan \<Rightarrow> attempt list \<Rightarrow> scan" where
  "scan_add st as =
     \<lparr>keyPass = (keyPass st \<or> Decrypted \<in> set as), keyFail = (keyFail st \<or> Rejected \<in> set as),
      raised = (raised st \<or> Raised \<in> set as), attempts = attempts st @ as\<rparr>"

definition scan_attempts :: "ext \<Rightarrow> bytes \<Rightarrow> CCryptoKeyStore \<Rightarrow> attempt list" where
  "scan_attempts X mk s =
     (let a1 = walked (fDecryptionThoroughlyChecked s) (map (key_attempt X mk) (mapCryptedKeys s))
      in if Raised \<in> set a1 then a1
         else a1 @ walked (fDecryptionThoroughlyChecked s)
                     (map (spending_key_attempt X mk) (mapCryptedSpendingKeys s)))"

subsection \<open>The contracts of the external parameters\<close>

text \<open>
  What the store relies on from libsodium's secret box, for the 32-byte key and IV buffers
  it passes and for messages whose boxed length fits in an \<^verbatim>\<open>int\<close>: sealing returns 0
  and writes the message length plus \<open>crypto_secretbox_MACBYTES\<close> bytes, and opening what
  was sealed, under the same nonce and key, returns 0 and writes the message.
\<close>

definition secretbox_contract :: "ext \<Rightarrow> bool" where
  "secretbox_contract X \<longleftrightarrow>
     (\<forall>m n k. length n = 32 \<and> length k = 32 \<and> length m + crypto_secretbox_MACBYTES X < 2 ^ 31 \<longrightarrow>
        (case crypto_secretbox_easy X m (of_nat (length m)) n k of
           (rc, c) \<Rightarrow>
             rc = 0 \<and> length c = length m + crypto_secretbox_MACBYTES X \<and>
             crypto_secretbox_open_easy X c (of_nat (length c)) n k = (0, m)))"

subsection \<open>A small instance of the external parameters\<close>

text \<open>
  An instance on which the model can be evaluated: a box that adds a pad derived from
  nonce and key to every byte and prefixes a 16-byte tag made of that pad, a public key
  that is the secret with every byte incremented behind a one-byte header, digests that add
  the bytes up. It has none of the cryptographic strength of the
  real primitives and all of the interface.
\<close>

definition sample_pad :: "bytes \<Rightarrow> bytes \<Rightarrow> byte" where
  "sample_pad n k = sum_list n + sum_list k"

definition sample_secretbox_easy :: "bytes \<Rightarrow> 64 word \<Rightarrow> bytes \<Rightarrow> bytes \<Rightarrow> int \<times> bytes" where
  "sample_secretbox_easy m mlen n k =
     (0, replicate 16 (sample_pad n k) @ map (\<lambda>b. b + sample_pad n k) (take (unat mlen) m))"

definition sample_secretbox_open_easy :: "bytes \<Rightarrow> 64 word \<Rightarrow> bytes \<Rightarrow> bytes \<Rightarrow> int \<times> bytes" where
  "sample_secretbox_open_easy c clen n k =
     (let c1 = take (unat clen) c
      in if length c1 < 16 \<or> take 16 c1 \<noteq> replicate 16 (sample_pad n k) then (- 1, [])
         else (0, map (\<lambda>b. b - sample_pad n k) (drop 16 c1)))"

definition sample_digest :: "bytes \<Rightarrow> uint256" where
  "sample_digest bs = ucast (sum_list bs)"

definition sample_pubkey :: "CKey \<Rightarrow> CPubKey" where
  "sample_pubkey k = (if fCompressed k then 2 else 4) # map (\<lambda>b. b + 1) (vch k)"

definition sample_ext :: ext where
  "sample_ext =
     \<lparr>crypto_secretbox_MACBYTES = 16,
      WALLET_CRYPTO_SALT_SIZE = 8,
      SerializedSpendingKeySize = 32,
      crypto_secretbox_easy = sample_secretbox_easy,
      crypto_secretbox_open_easy = sample_secretbox_open_easy,
      crypto_pwhash = (\<lambda>outlen passwd salt opslimit memlimit.
                         (0, replicate outlen (sum_list passwd + sum_list salt))),
      ReadCompactSize = (\<lambda>bs. case bs of [] \<Rightarrow> None | b # _ \<Rightarrow> Some (ucast b)),
      PubKey_GetID = (\<lambda>p. ucast (sample_digest p)),
      PubKey_GetHash = sample_digest,
      PubKey_IsCompressed = (\<lambda>p. length p = 33),
      Key_secret = (\<lambda>k. if fValid k then vch k else []),
      Key_GetPubKey = sample_pubkey,
      Key_Set = (\<lambda>bs c. CKey (length bs = 32) c bs),
      Key_VerifyPubKey = (\<lambda>k p. fValid k \<and> fCompressed k = (length p = 33) \<and> sample_pubkey k = p),
      SK_address = (\<lambda>sk. (sk + 1, sk + 2)),
      SK_viewing_key = (\<lambda>sk. sk + 3),
      SK_serialize = uint256_bytes,
      SK_deserialize = (\<lambda>bs. Some (sample_digest bs)),
      Addr_GetHash = (\<lambda>a. fst a + snd a)\<rparr>"

text \<open>Stores over the small instance: two keys migrated under \<open>sample_master\<close>; a store
  loaded with one record sealed under \<open>sample_master\<close>, one sealed under another key and a
  spending key record of three bytes; a store loaded with one record of three bytes.\<close>

definition sample_master :: bytes where "sample_master = replicate 32 1"
definition sample_other_master :: bytes where "sample_other_master = replicate 32 2"
definition sample_key1 :: CKey where "sample_key1 = CKey True True (replicate 32 3)"
definition sample_key2 :: CKey where "sample_key2 = CKey True True (replicate 32 4)"

definition sample_box :: "bytes \<Rightarrow> CKey \<Rightarrow> bytes" where
  "sample_box mk key =
     (case EncryptSecret sample_ext mk (vch key) (PubKey_GetHash sample_ext (sample_pubkey key)) of
        Ok ct \<Rightarrow> ct | Failed \<Rightarrow> [] | Threw \<Rightarrow> [])"

definition sample_store :: CCryptoKeyStore where
  "sample_store =
     run sample_ext
       [OpAddKeyPubKey sample_key1 (sample_pubkey sample_key1),
        OpAddKeyPubKey sample_key2 (sample_pubkey sample_key2),
        OpEncryptKeys sample_master]
       CCryptoKeyStore_new"

definition mixed_store :: CCryptoKeyStore where
  "mixed_store =
     run sample_ext
       [OpAddCryptedKey (sample_pubkey sample_key1) (sample_box sample_master sample_key1),
        OpAddCryptedKey (sample_pubkey sample_key2) (sample_box sample_other_master sample_key2),
        OpAddCryptedSpendingKey (1, 2) 3 [0, 0, 0]]
       CCryptoKeyStore_new"

definition short_store :: CCryptoKeyStore where
  "short_store =
     run sample_ext [OpAddCryptedKey (sample_pubkey sample_key1) [0, 0, 0]] CCryptoKeyStore_new"

section \<open>Properties\<close>

subsection \<open>Lengths as machine integers\<close>

lemma sint_of_nat_32: "n < 2 ^ 31 \<Longrightarrow> sint (of_nat n :: 32 word) = int n"
  by (simp add: signed_of_nat signed_take_bit_int_eq_self)

lemma sint_add_32:
  "a + b < 2 ^ 31 \<Longrightarrow> sint (of_nat a + of_nat b :: 32 word) = int a + int b"
  using sint_of_nat_32 [of "a + b"] by simp

lemma sint_sub_32:
  assumes "a < 2 ^ 31" "b < 2 ^ 31"
  shows "sint (of_nat a - of_nat b :: 32 word) = int a - int b"
proof -
  have "sint (of_nat a - of_nat b :: 32 word) = signed_take_bit 31 (int a - int b)"
    using assms by (simp add: sint_word_diff sint_of_nat_32)
  also have "\<dots> = int a - int b"
    using assms by (intro signed_take_bit_int_eq_self) auto
  finally show ?thesis .
qed

lemma scast_of_nat_32_64:
  "n < 2 ^ 31 \<Longrightarrow> (scast (of_nat n :: 32 word) :: 64 word) = of_nat n"
  by (simp add: scast_eq sint_of_nat_32)

lemma length_store_bytes [simp]: "length (store_bytes dst src) = length dst"
  by (simp add: store_bytes_def)

lemma store_bytes_same_length: "length src = length dst \<Longrightarrow> store_bytes dst src = src"
  by (simp add: store_bytes_def)

lemma length_uint256_bytes [simp]: "length (uint256_bytes w) = 32"
  by (simp add: uint256_bytes_def)

subsection \<open>The cipher\<close>

lemma Decrypt_short_raises:
  assumes "fKeySet c" "length ct < crypto_secretbox_MACBYTES X" "crypto_secretbox_MACBYTES X < 2 ^ 31"
  shows "Decrypt X c ct = Threw"
proof -
  have "sint (of_nat (length ct) - of_nat (crypto_secretbox_MACBYTES X) :: 32 word)
          = int (length ct) - int (crypto_secretbox_MACBYTES X)"
    using assms by (intro sint_sub_32) auto
  then show ?thesis using assms by (simp add: Decrypt_def Let_def)
qed

lemma Decrypt_Ok_length:
  assumes "Decrypt X c ct = Ok p" "length ct < 2 ^ 31" "crypto_secretbox_MACBYTES X < 2 ^ 31"
  shows "length p + crypto_secretbox_MACBYTES X = length ct"
proof -
  have d: "sint (of_nat (length ct) - of_nat (crypto_secretbox_MACBYTES X) :: 32 word)
          = int (length ct) - int (crypto_secretbox_MACBYTES X)"
    using assms by (intro sint_sub_32) auto
  show ?thesis using assms(1)
    by (auto simp: Decrypt_def Let_def d split: if_splits prod.splits)
qed

lemma Encrypt_in_range:
  assumes "fKeySet c" "length m + crypto_secretbox_MACBYTES X < 2 ^ 31"
  shows "Encrypt X c m =
           (case crypto_secretbox_easy X m (of_nat (length m)) (chIV c) (chKey c) of
              (rc, written) \<Rightarrow>
                if rc = 0
                then Ok (store_bytes (replicate (length m + crypto_secretbox_MACBYTES X) 0) written)
                else Failed)"
proof -
  have s: "sint (of_nat (length m) + of_nat (crypto_secretbox_MACBYTES X) :: 32 word)
             = int (length m) + int (crypto_secretbox_MACBYTES X)"
    using assms(2) by (rule sint_add_32)
  have c: "(scast (of_nat (length m) :: 32 word) :: 64 word) = of_nat (length m)"
    using assms(2) by (intro scast_of_nat_32_64) simp
  show ?thesis
    using assms(1) by (simp add: Encrypt_def Let_def s c nat_add_distrib cong: if_cong)
qed

lemma Decrypt_in_range:
  assumes "fKeySet c" "crypto_secretbox_MACBYTES X \<le> length ct" "length ct < 2 ^ 31"
  shows "Decrypt X c ct =
           (case crypto_secretbox_open_easy X ct (of_nat (length ct)) (chIV c) (chKey c) of
              (rc, written) \<Rightarrow>
                if rc = 0
                then Ok (store_bytes (replicate (length ct - crypto_secretbox_MACBYTES X) 0) written)
                else Failed)"
proof -
  have s: "sint (of_nat (length ct) - of_nat (crypto_secretbox_MACBYTES X) :: 32 word)
             = int (length ct) - int (crypto_secretbox_MACBYTES X)"
    using assms(2,3) by (intro sint_sub_32) auto
  have c: "(scast (of_nat (length ct) :: 32 word) :: 64 word) = of_nat (length ct)"
    using assms(3) by (rule scast_of_nat_32_64)
  have n: "nat (int (length ct) - int (crypto_secretbox_MACBYTES X))
             = length ct - crypto_secretbox_MACBYTES X"
    by simp
  show ?thesis
    using assms(1,2) by (simp add: Decrypt_def Let_def s c n del: of_nat_diff cong: if_cong)
qed

lemma Encrypt_large_raises:
  assumes "fKeySet c" and "length m + crypto_secretbox_MACBYTES X = 2 ^ 31"
  shows "Encrypt X c m = Threw"
proof -
  have "(of_nat (length m) + of_nat (crypto_secretbox_MACBYTES X) :: 32 word)
          = of_nat (length m + crypto_secretbox_MACBYTES X)"
    by simp
  also have "\<dots> = (2 ^ 31 :: 32 word)"
    unfolding assms(2) by simp
  finally have "sint (of_nat (length m) + of_nat (crypto_secretbox_MACBYTES X) :: 32 word) < 0"
    by simp
  then show ?thesis
    using assms(1) by (simp add: Encrypt_def Let_def)
qed

lemma Encrypt_Decrypt:
  assumes X: "secretbox_contract X"
    and c: "fKeySet c" "length (chKey c) = 32" "length (chIV c) = 32"
    and m: "length m + crypto_secretbox_MACBYTES X < 2 ^ 31"
  shows "\<exists>ct. Encrypt X c m = Ok ct \<and> length ct = length m + crypto_secretbox_MACBYTES X
            \<and> Decrypt X c ct = Ok m"
proof -
  obtain rc w where e: "crypto_secretbox_easy X m (of_nat (length m)) (chIV c) (chKey c) = (rc, w)"
    by (cases "crypto_secretbox_easy X m (of_nat (length m)) (chIV c) (chKey c)")
  from X c m e have rc: "rc = 0" and lw: "length w = length m + crypto_secretbox_MACBYTES X"
    and op: "crypto_secretbox_open_easy X w (of_nat (length w)) (chIV c) (chKey c) = (0, m)"
    unfolding secretbox_contract_def by (fastforce)+
  have enc: "Encrypt X c m = Ok w"
    using e rc lw by (simp add: Encrypt_in_range [OF c(1) m] store_bytes_same_length)
  have r: "crypto_secretbox_MACBYTES X \<le> length w" "length w < 2 ^ 31"
    using lw m by auto
  have dec: "Decrypt X c w = Ok m"
    unfolding Decrypt_in_range [OF c(1) r] op using lw by (simp add: store_bytes_same_length)
  from enc lw dec show ?thesis by blast
qed

lemma sample_secretbox_contract: "secretbox_contract sample_ext"
proof -
  have "sample_secretbox_open_easy
          (replicate 16 (sample_pad n k) @ map (\<lambda>b. b + sample_pad n k) m)
          (of_nat (16 + length m)) n k = (0, m)"
    if "length m + 16 < 2 ^ 31" for m n k
  proof -
    have "16 + length m < 2 ^ 64" using that by simp
    then have u: "unat (of_nat (16 + length m) :: 64 word) = 16 + length m"
      by (simp only: unat_of_nat) simp
    show ?thesis
      unfolding sample_secretbox_open_easy_def u by (simp add: Let_def comp_def)
  qed
  moreover have "unat (of_nat (length m) :: 64 word) = length m"
    if "length m + 16 < 2 ^ 31" for m :: bytes
  proof -
    have "length m < 2 ^ 64" using that by simp
    then show ?thesis by (simp only: unat_of_nat) simp
  qed
  ultimately show ?thesis
    by (simp add: secretbox_contract_def sample_ext_def sample_secretbox_easy_def add.commute)
qed

lemma SetKey_32:
  "length k = 32 \<Longrightarrow> length iv = 32 \<Longrightarrow>
   SetKey k iv c = (True, c\<lparr>chKey := k, chIV := iv, fKeySet := True\<rparr>)"
  by (simp add: SetKey_def WALLET_CRYPTO_KEY_SIZE_def)

lemma SetKey_wrong_size: "length k \<noteq> 32 \<Longrightarrow> SetKey k iv c = (False, c)"
  by (simp add: SetKey_def WALLET_CRYPTO_KEY_SIZE_def)

lemma EncryptSecret_DecryptSecret:
  assumes "secretbox_contract X" "length mk = 32"
    "length m + crypto_secretbox_MACBYTES X < 2 ^ 31"
  shows "\<exists>ct. EncryptSecret X mk m nIV = Ok ct
            \<and> length ct = length m + crypto_secretbox_MACBYTES X
            \<and> DecryptSecret X mk ct nIV = Ok m"
  using Encrypt_Decrypt [OF assms(1), of "CCrypter_new\<lparr>chKey := mk, chIV := uint256_bytes nIV, fKeySet := True\<rparr>" m] assms(2,3)
  by (simp add: EncryptSecret_def DecryptSecret_def SetKey_32)

subsection \<open>The loops of Unlock\<close>

lemma Unlock_keys_walked:
  "Unlock_keys X mk checked es st = scan_add st (walked checked (map (key_attempt X mk) es))"
proof (induction es arbitrary: st)
  case Nil
  show ?case by (simp add: scan_add_def walked_def)
next
  case (Cons mi es)
  show ?case
  proof (cases "DecryptKey X mk (snd (snd mi)) (fst (snd mi))")
    case (Ok key)
    then show ?thesis
      using Cons.IH by (auto simp: scan_add_def walked_def key_attempt_def)
  next
    case Failed
    then show ?thesis by (simp add: scan_add_def walked_def key_attempt_def)
  next
    case Threw
    then show ?thesis by (simp add: scan_add_def walked_def key_attempt_def)
  qed
qed

lemma Unlock_spending_keys_walked:
  "Unlock_spending_keys X mk checked es st
     = scan_add st (walked checked (map (spending_key_attempt X mk) es))"
proof (induction es arbitrary: st)
  case Nil
  show ?case by (simp add: scan_add_def walked_def)
next
  case (Cons skmi es)
  show ?case
  proof (cases "DecryptSpendingKey X mk (snd skmi) (fst skmi)")
    case (Ok sk)
    then show ?thesis
      using Cons.IH by (auto simp: scan_add_def walked_def spending_key_attempt_def)
  next
    case Failed
    then show ?thesis by (simp add: scan_add_def walked_def spending_key_attempt_def)
  next
    case Threw
    then show ?thesis by (simp add: scan_add_def walked_def spending_key_attempt_def)
  qed
qed

lemma Unlock_scan_eq:
  "Unlock_scan X mk s = scan_add scan_start (scan_attempts X mk s)"
  by (auto simp: Unlock_scan_def Unlock_keys_walked Unlock_spending_keys_walked scan_attempts_def
      scan_add_def scan_start_def Let_def)

lemma Unlock_scan_flags:
  "keyPass (Unlock_scan X mk s) = (Decrypted \<in> set (attempts (Unlock_scan X mk s)))"
  "keyFail (Unlock_scan X mk s) = (Rejected \<in> set (attempts (Unlock_scan X mk s)))"
  "raised (Unlock_scan X mk s) = (Raised \<in> set (attempts (Unlock_scan X mk s)))"
  by (simp_all add: Unlock_scan_eq scan_add_def scan_start_def)

lemma SetCrypted_crypted: "fUseCrypto s \<Longrightarrow> SetCrypted s = (True, s)"
  by (simp add: SetCrypted_def)

lemma Unlock_attempts_crypted:
  "fUseCrypto s \<Longrightarrow> Unlock_attempts X mk s = scan_attempts X mk s"
  by (simp add: Unlock_attempts_def SetCrypted_crypted Unlock_scan_eq scan_add_def scan_start_def)

lemma Unlock_by_attempts:
  assumes "fUseCrypto s"
  shows "Unlock X mk s =
           (if Raised \<in> set (Unlock_attempts X mk s) then (Exn, s)
            else if Decrypted \<in> set (Unlock_attempts X mk s) \<and> Rejected \<in> set (Unlock_attempts X mk s)
              then (Abort, s)
            else if Decrypted \<notin> set (Unlock_attempts X mk s) then (Ret False, s)
            else if Rejected \<in> set (Unlock_attempts X mk s) then (Ret False, s)
            else (Ret True,
                  s\<lparr>vMasterKey := mk, fDecryptionThoroughlyChecked := True,
                    nStatusChanged := Suc (nStatusChanged s)\<rparr>))"
  using assms
  by (auto simp: Unlock_def Unlock_attempts_def SetCrypted_crypted Unlock_scan_flags Let_def)

subsection \<open>What no call changes\<close>

lemma SetCrypted_cases:
  "SetCrypted s = (True, s) \<and> fUseCrypto s
   \<or> SetCrypted s = (True, s\<lparr>fUseCrypto := True\<rparr>) \<and> \<not> fUseCrypto s
        \<and> mapKeys s = [] \<and> mapSpendingKeys s = []
   \<or> SetCrypted s = (False, s) \<and> \<not> fUseCrypto s"
  by (auto simp: SetCrypted_def)

lemma SetCrypted_checked:
  "fDecryptionThoroughlyChecked (snd (SetCrypted s)) = fDecryptionThoroughlyChecked s"
  by (simp add: SetCrypted_def)

lemma SetCrypted_True_crypted: "SetCrypted s = (True, s1) \<Longrightarrow> fUseCrypto s1"
  by (auto simp: SetCrypted_def split: if_splits)

lemma AddCryptedKey_checked:
  "AddCryptedKey X p ct s = (b, s1) \<Longrightarrow> fDecryptionThoroughlyChecked s1 = fDecryptionThoroughlyChecked s"
  using SetCrypted_cases [of s] by (auto simp: AddCryptedKey_def)

lemma AddCryptedSpendingKey_checked:
  "AddCryptedSpendingKey a vk ct s = (b, s1) \<Longrightarrow>
   fDecryptionThoroughlyChecked s1 = fDecryptionThoroughlyChecked s"
  using SetCrypted_cases [of s] by (auto simp: AddCryptedSpendingKey_def)

lemma EncryptKeys_keys_checked:
  "EncryptKeys_keys X mk es s = (r, s1) \<Longrightarrow>
   fDecryptionThoroughlyChecked s1 = fDecryptionThoroughlyChecked s"
proof (induction es arbitrary: s)
  case Nil
  then show ?case by simp
next
  case (Cons e es)
  show ?case
  proof (cases "EncryptSecret X mk (Key_secret X (snd e)) (PubKey_GetHash X (Key_GetPubKey X (snd e)))")
    case (Ok ct)
    obtain b s2 where a: "AddCryptedKey X (Key_GetPubKey X (snd e)) ct s = (b, s2)"
      by (cases "AddCryptedKey X (Key_GetPubKey X (snd e)) ct s")
    show ?thesis
      using Cons.prems Ok a AddCryptedKey_checked [OF a] Cons.IH [of s2]
      by (cases b) (auto simp: Let_def)
  next
    case Failed
    then show ?thesis using Cons.prems by (auto simp: Let_def)
  next
    case Threw
    then show ?thesis using Cons.prems by (auto simp: Let_def)
  qed
qed

lemma EncryptKeys_spending_keys_checked:
  "EncryptKeys_spending_keys X mk es s = (r, s1) \<Longrightarrow>
   fDecryptionThoroughlyChecked s1 = fDecryptionThoroughlyChecked s"
proof (induction es arbitrary: s)
  case Nil
  then show ?case by simp
next
  case (Cons e es)
  show ?case
  proof (cases "EncryptSecret X mk (SK_serialize X (snd e)) (Addr_GetHash X (SK_address X (snd e)))")
    case (Ok ct)
    obtain b s2 where a:
      "AddCryptedSpendingKey (SK_address X (snd e)) (SK_viewing_key X (snd e)) ct s = (b, s2)"
      by (cases "AddCryptedSpendingKey (SK_address X (snd e)) (SK_viewing_key X (snd e)) ct s")
    show ?thesis
      using Cons.prems Ok a AddCryptedSpendingKey_checked [OF a] Cons.IH [of s2]
      by (cases b) (auto simp: Let_def)
  next
    case Failed
    then show ?thesis using Cons.prems by (auto simp: Let_def)
  next
    case Threw
    then show ?thesis using Cons.prems by (auto simp: Let_def)
  qed
qed

lemma EncryptKeys_checked:
  "fDecryptionThoroughlyChecked (snd (EncryptKeys X mk s)) = fDecryptionThoroughlyChecked s"
proof (cases "mapCryptedKeys s \<noteq> [] \<or> IsCrypted s")
  case True
  then show ?thesis by (simp add: EncryptKeys_def)
next
  case False
  obtain r1 s1 where l1: "EncryptKeys_keys X mk (mapKeys s) (s\<lparr>fUseCrypto := True\<rparr>) = (r1, s1)"
    by (cases "EncryptKeys_keys X mk (mapKeys s) (s\<lparr>fUseCrypto := True\<rparr>)")
  obtain r2 s2 where l2: "EncryptKeys_spending_keys X mk (mapSpendingKeys s1) (s1\<lparr>mapKeys := []\<rparr>) = (r2, s2)"
    by (cases "EncryptKeys_spending_keys X mk (mapSpendingKeys s1) (s1\<lparr>mapKeys := []\<rparr>)")
  have c1: "fDecryptionThoroughlyChecked s1 = fDecryptionThoroughlyChecked s"
    using EncryptKeys_keys_checked [OF l1] by simp
  have c2: "fDecryptionThoroughlyChecked s2 = fDecryptionThoroughlyChecked s1"
    using EncryptKeys_spending_keys_checked [OF l2] by simp
  show ?thesis
    using False l1 l2 c1 c2
    by (auto simp: EncryptKeys_def split: status.splits bool.splits)
qed

lemma Unlock_snd:
  "snd (Unlock X mk s) = snd (SetCrypted s)
   \<or> snd (Unlock X mk s) = (snd (SetCrypted s))\<lparr>vMasterKey := mk, fDecryptionThoroughlyChecked := True,
         nStatusChanged := Suc (nStatusChanged (snd (SetCrypted s)))\<rparr>"
  by (auto simp: Unlock_def Let_def split: prod.splits bool.splits)

lemma step_checked:
  assumes "fDecryptionThoroughlyChecked s"
  shows "fDecryptionThoroughlyChecked (snd (step X c s))"
proof (cases c)
  case OpSetCrypted
  then show ?thesis using assms SetCrypted_checked [of s] by (auto split: prod.splits)
next
  case OpLock
  then show ?thesis using assms SetCrypted_checked [of s]
    by (auto simp: Lock_def split: prod.splits bool.splits)
next
  case (OpUnlock mk)
  then show ?thesis using assms Unlock_snd [of X mk s] SetCrypted_checked [of s] by auto
next
  case (OpAddKeyPubKey key pubkey)
  then show ?thesis
    using assms by (auto simp: AddKeyPubKey_def CBasicKeyStore_AddKeyPubKey_def
        split: outcome.splits prod.splits bool.splits dest: AddCryptedKey_checked)
next
  case (OpAddCryptedKey p ct)
  then show ?thesis using assms by (auto split: prod.splits dest: AddCryptedKey_checked)
next
  case (OpAddSpendingKey sk)
  then show ?thesis
    using assms by (auto simp: AddSpendingKey_def CBasicKeyStore_AddSpendingKey_def Let_def
        split: outcome.splits prod.splits bool.splits dest: AddCryptedSpendingKey_checked)
next
  case (OpAddCryptedSpendingKey a vk ct)
  then show ?thesis using assms by (auto split: prod.splits dest: AddCryptedSpendingKey_checked)
next
  case (OpEncryptKeys mk)
  then show ?thesis using assms EncryptKeys_checked [of X mk s] by simp
qed

lemma run_checked:
  "fDecryptionThoroughlyChecked s \<Longrightarrow> fDecryptionThoroughlyChecked (run X cs s)"
proof (induction cs arbitrary: s)
  case Nil
  then show ?case by simp
next
  case (Cons c cs)
  then show ?case
    using step_checked [of s X c]
    by (auto split: prod.splits status.splits)
qed

subsection \<open>The store in encrypted mode\<close>

lemma AddCryptedKey_crypted:
  "fUseCrypto s \<Longrightarrow> AddCryptedKey X p ct s =
     (True, s\<lparr>mapCryptedKeys := map_assign (PubKey_GetID X p) (p, ct) (mapCryptedKeys s)\<rparr>)"
  by (simp add: AddCryptedKey_def SetCrypted_crypted)

lemma AddCryptedSpendingKey_crypted:
  "fUseCrypto s \<Longrightarrow> AddCryptedSpendingKey a vk ct s =
     (True, s\<lparr>mapCryptedSpendingKeys := map_assign a ct (mapCryptedSpendingKeys s),
              mapNoteDecryptors := map_insert a vk (mapNoteDecryptors s)\<rparr>)"
  by (simp add: AddCryptedSpendingKey_def SetCrypted_crypted)

lemma EncryptKeys_crypted: "fUseCrypto s \<Longrightarrow> EncryptKeys X mk s = (Ret False, s)"
  by (simp add: EncryptKeys_def IsCrypted_def)

lemma AddKeyPubKey_crypted:
  assumes "fUseCrypto s"
  shows "AddKeyPubKey X key pubkey s =
     (if vMasterKey s = [] then (Ret False, s)
      else case EncryptSecret X (vMasterKey s) (Key_secret X key) (PubKey_GetHash X pubkey) of
             Threw \<Rightarrow> (Exn, s)
           | Failed \<Rightarrow> (Ret False, s)
           | Ok ct \<Rightarrow>
               (Ret True,
                s\<lparr>mapCryptedKeys := map_assign (PubKey_GetID X pubkey) (pubkey, ct) (mapCryptedKeys s)\<rparr>))"
  using assms
  by (simp add: AddKeyPubKey_def IsCrypted_def IsLocked_def AddCryptedKey_crypted split: outcome.splits)

lemma AddSpendingKey_crypted:
  assumes "fUseCrypto s"
  shows "AddSpendingKey X sk s =
     (if vMasterKey s = [] then (Ret False, s)
      else case EncryptSecret X (vMasterKey s) (SK_serialize X sk) (Addr_GetHash X (SK_address X sk)) of
             Threw \<Rightarrow> (Exn, s)
           | Failed \<Rightarrow> (Ret False, s)
           | Ok ct \<Rightarrow>
               (Ret True,
                s\<lparr>mapCryptedSpendingKeys := map_assign (SK_address X sk) ct (mapCryptedSpendingKeys s),
                  mapNoteDecryptors := map_insert (SK_address X sk) (SK_viewing_key X sk) (mapNoteDecryptors s)\<rparr>))"
  using assms
  by (simp add: AddSpendingKey_def IsCrypted_def IsLocked_def AddCryptedSpendingKey_crypted Let_def
      split: outcome.splits)

lemma Lock_crypted:
  "fUseCrypto s \<Longrightarrow> Lock s = (True, s\<lparr>vMasterKey := [], nStatusChanged := Suc (nStatusChanged s)\<rparr>)"
  by (simp add: Lock_def SetCrypted_crypted)

lemma step_crypted:
  assumes "fUseCrypto s"
  shows "fUseCrypto (snd (step X c s)) \<and> mapKeys (snd (step X c s)) = mapKeys s
           \<and> mapSpendingKeys (snd (step X c s)) = mapSpendingKeys s"
proof (cases c)
  case OpSetCrypted
  then show ?thesis using assms by (simp add: SetCrypted_crypted)
next
  case OpLock
  then show ?thesis using assms by (simp add: Lock_crypted)
next
  case (OpUnlock mk)
  then show ?thesis using assms Unlock_snd [of X mk s] by (auto simp: SetCrypted_crypted)
next
  case (OpAddKeyPubKey key pubkey)
  then show ?thesis using assms by (auto simp: AddKeyPubKey_crypted split: outcome.splits)
next
  case (OpAddCryptedKey p ct)
  then show ?thesis using assms by (simp add: AddCryptedKey_crypted)
next
  case (OpAddSpendingKey sk)
  then show ?thesis using assms by (auto simp: AddSpendingKey_crypted split: outcome.splits)
next
  case (OpAddCryptedSpendingKey a vk ct)
  then show ?thesis using assms by (simp add: AddCryptedSpendingKey_crypted)
next
  case (OpEncryptKeys mk)
  then show ?thesis using assms by (simp add: EncryptKeys_crypted)
qed

lemma run_crypted:
  "fUseCrypto s \<Longrightarrow>
   fUseCrypto (run X cs s) \<and> mapKeys (run X cs s) = mapKeys s
     \<and> mapSpendingKeys (run X cs s) = mapSpendingKeys s"
proof (induction cs arbitrary: s)
  case Nil
  then show ?case by simp
next
  case (Cons c cs)
  obtain r s1 where st: "step X c s = (r, s1)" by (cases "step X c s")
  have s1: "fUseCrypto s1" "mapKeys s1 = mapKeys s" "mapSpendingKeys s1 = mapSpendingKeys s"
    using step_crypted [OF Cons.prems, of X c] st by simp_all
  show ?case
    using Cons.IH [OF s1(1)] s1 st by (cases r) auto
qed

subsection \<open>The small instance\<close>

lemma sample_ext_sel:
  "crypto_secretbox_MACBYTES sample_ext = 16"
  "WALLET_CRYPTO_SALT_SIZE sample_ext = 8"
  "SerializedSpendingKeySize sample_ext = 32"
  "crypto_secretbox_easy sample_ext = sample_secretbox_easy"
  "crypto_secretbox_open_easy sample_ext = sample_secretbox_open_easy"
  "PubKey_GetID sample_ext p = ucast (sample_digest p)"
  "PubKey_GetHash sample_ext = sample_digest"
  "PubKey_IsCompressed sample_ext p = (length p = 33)"
  "Key_secret sample_ext k = (if fValid k then vch k else [])"
  "Key_GetPubKey sample_ext = sample_pubkey"
  "Key_Set sample_ext bs c = CKey (length bs = 32) c bs"
  "Key_VerifyPubKey sample_ext k p = (fValid k \<and> fCompressed k = (length p = 33) \<and> sample_pubkey k = p)"
  by (simp_all add: sample_ext_def)

lemma length_sample_pubkey [simp]: "length (sample_pubkey k) = Suc (length (vch k))"
  by (simp add: sample_pubkey_def)

lemma sample_EncryptSecret:
  assumes "length mk = 32" "length m + 16 < 2 ^ 31"
  shows "EncryptSecret sample_ext mk m iv =
           Ok (replicate 16 (sample_pad (uint256_bytes iv) mk)
               @ map (\<lambda>b. b + sample_pad (uint256_bytes iv) mk) m)"
proof -
  have u: "unat (of_nat (length m) :: 64 word) = length m"
  proof -
    have "length m < 2 ^ 64" using assms(2) by simp
    then show ?thesis by (simp only: unat_of_nat) simp
  qed
  have r: "length m + crypto_secretbox_MACBYTES sample_ext < 2 ^ 31"
    using assms(2) by (simp add: sample_ext_sel)
  let ?c = "CCrypter_new\<lparr>chKey := mk, chIV := uint256_bytes iv, fKeySet := True\<rparr>"
  have "Encrypt sample_ext ?c m =
           Ok (replicate 16 (sample_pad (uint256_bytes iv) mk)
               @ map (\<lambda>b. b + sample_pad (uint256_bytes iv) mk) m)"
    unfolding Encrypt_in_range [of ?c m sample_ext, OF _ r, simplified]
    by (simp add: sample_ext_sel sample_secretbox_easy_def u store_bytes_same_length)
  then show ?thesis
    using assms(1) by (simp add: EncryptSecret_def SetKey_32)
qed

lemma sample_DecryptSecret_other_key:
  assumes "length mk = 32" "sum_list mk \<noteq> sum_list mk0" "length m + 16 < 2 ^ 31"
  shows "DecryptSecret sample_ext mk
           (replicate 16 (sample_pad (uint256_bytes iv) mk0)
            @ map (\<lambda>b. b + sample_pad (uint256_bytes iv) mk0) m) iv = Failed"
proof -
  define ct where "ct = replicate 16 (sample_pad (uint256_bytes iv) mk0)
            @ map (\<lambda>b. b + sample_pad (uint256_bytes iv) mk0) m"
  let ?c = "CCrypter_new\<lparr>chKey := mk, chIV := uint256_bytes iv, fKeySet := True\<rparr>"
  have l: "length ct = 16 + length m" by (simp add: ct_def)
  have t: "take 16 ct = replicate 16 (sample_pad (uint256_bytes iv) mk0)" by (simp add: ct_def)
  have u: "unat (of_nat (length ct) :: 64 word) = length ct"
  proof -
    have "length ct < 2 ^ 64" using assms(3) l by simp
    then show ?thesis by (simp only: unat_of_nat) simp
  qed
  have r: "crypto_secretbox_MACBYTES sample_ext \<le> length ct" "length ct < 2 ^ 31"
    using assms(3) l by (simp_all add: sample_ext_sel)
  have p: "sample_pad (uint256_bytes iv) mk0 \<noteq> sample_pad (uint256_bytes iv) mk"
    using assms(2) by (simp add: sample_pad_def)
  have o: "crypto_secretbox_open_easy sample_ext ct (of_nat (length ct)) (uint256_bytes iv) mk = (- 1, [])"
    unfolding sample_ext_sel sample_secretbox_open_easy_def u using p t by simp
  have "Decrypt sample_ext ?c ct = Failed"
    unfolding Decrypt_in_range [where c = ?c and ct = ct and X = sample_ext, OF _ r, simplified] using o by simp
  then show ?thesis
    using assms(1) unfolding ct_def by (simp add: DecryptSecret_def SetKey_32)
qed

lemma sample_box_eq:
  assumes "length mk = 32" "length (vch key) = 32"
  shows "EncryptSecret sample_ext mk (vch key) (PubKey_GetHash sample_ext (sample_pubkey key))
           = Ok (sample_box mk key)"
  using sample_EncryptSecret [OF assms(1), of "vch key"] assms(2)
  by (simp add: sample_box_def)

lemma sample_DecryptKey_same:
  assumes "length mk = 32" "length (vch key) = 32" "fValid key" "fCompressed key"
  shows "DecryptKey sample_ext mk (sample_box mk key) (sample_pubkey key) = Ok key"
proof -
  have r: "length (vch key) + crypto_secretbox_MACBYTES sample_ext < 2 ^ 31"
    using assms(2) by (simp add: sample_ext_sel)
  obtain ct where e: "EncryptSecret sample_ext mk (vch key) (PubKey_GetHash sample_ext (sample_pubkey key)) = Ok ct"
    and d: "DecryptSecret sample_ext mk ct (PubKey_GetHash sample_ext (sample_pubkey key)) = Ok (vch key)"
    using EncryptSecret_DecryptSecret [OF sample_secretbox_contract assms(1) r] by blast
  have "ct = sample_box mk key" using e sample_box_eq [OF assms(1,2)] by simp
  with d have "DecryptSecret sample_ext mk (sample_box mk key) (PubKey_GetHash sample_ext (sample_pubkey key)) = Ok (vch key)"
    by simp
  moreover have "CKey True True (vch key) = key" using assms(3,4) by (cases key) simp
  ultimately show ?thesis
    using assms(2,3,4) by (simp add: DecryptKey_def sample_ext_sel)
qed

lemma sample_DecryptKey_other:
  assumes "length mk = 32" "length mk0 = 32" "sum_list mk \<noteq> sum_list mk0" "length (vch key) = 32"
  shows "DecryptKey sample_ext mk (sample_box mk0 key) (sample_pubkey key) = Failed"
proof -
  have b: "sample_box mk0 key =
      replicate 16 (sample_pad (uint256_bytes (PubKey_GetHash sample_ext (sample_pubkey key))) mk0)
      @ map (\<lambda>b. b + sample_pad (uint256_bytes (PubKey_GetHash sample_ext (sample_pubkey key))) mk0) (vch key)"
    using sample_EncryptSecret [OF assms(2), of "vch key"] assms(4) by (simp add: sample_box_def)
  show ?thesis
    unfolding DecryptKey_def b
    using sample_DecryptSecret_other_key [OF assms(1,3), of "vch key"] assms(4) by simp
qed

lemma DecryptSecret_short_raises:
  assumes "length mk = 32" "length ct < crypto_secretbox_MACBYTES X" "crypto_secretbox_MACBYTES X < 2 ^ 31"
  shows "DecryptSecret X mk ct iv = Threw"
  using assms Decrypt_short_raises [of "CCrypter_new\<lparr>chKey := mk, chIV := uint256_bytes iv, fKeySet := True\<rparr>" ct X]
  by (simp add: DecryptSecret_def SetKey_32)

lemma sample_ids:
  "PubKey_GetID sample_ext (sample_pubkey sample_key1) = 130"
  "PubKey_GetID sample_ext (sample_pubkey sample_key2) = 162"
  by code_simp+

lemma sample_masters_differ: "sum_list sample_master \<noteq> sum_list sample_other_master"
  by code_simp

lemma sample_facts:
  "length sample_master = 32" "length sample_other_master = 32"
  "length (vch sample_key1) = 32" "fValid sample_key1" "fCompressed sample_key1"
  "length (vch sample_key2) = 32" "fValid sample_key2" "fCompressed sample_key2"
  by (simp_all add: sample_master_def sample_other_master_def sample_key1_def sample_key2_def)

lemma mixed_store_eq:
  "mixed_store =
     \<lparr>mapKeys = [], mapSpendingKeys = [], mapNoteDecryptors = [((1, 2), 3)],
      mapCryptedKeys =
        [(130, sample_pubkey sample_key1, sample_box sample_master sample_key1),
         (162, sample_pubkey sample_key2, sample_box sample_other_master sample_key2)],
      mapCryptedSpendingKeys = [((1, 2), [0, 0, 0])], vMasterKey = [], fUseCrypto = True,
      fDecryptionThoroughlyChecked = False, nStatusChanged = 0\<rparr>"
  by (simp add: mixed_store_def CCryptoKeyStore_new_def AddCryptedKey_def
      AddCryptedSpendingKey_def SetCrypted_def sample_ids)

lemma short_store_eq:
  "short_store =
     \<lparr>mapKeys = [], mapSpendingKeys = [], mapNoteDecryptors = [],
      mapCryptedKeys = [(130, sample_pubkey sample_key1, [0, 0, 0])],
      mapCryptedSpendingKeys = [], vMasterKey = [], fUseCrypto = True,
      fDecryptionThoroughlyChecked = False, nStatusChanged = 0\<rparr>"
  by (simp add: short_store_def CCryptoKeyStore_new_def AddCryptedKey_def SetCrypted_def sample_ids)

lemma sample_store_eq:
  "sample_store =
     \<lparr>mapKeys = [], mapSpendingKeys = [], mapNoteDecryptors = [],
      mapCryptedKeys =
        [(130, sample_pubkey sample_key1, sample_box sample_master sample_key1),
         (162, sample_pubkey sample_key2, sample_box sample_master sample_key2)],
      mapCryptedSpendingKeys = [], vMasterKey = [], fUseCrypto = True,
      fDecryptionThoroughlyChecked = False, nStatusChanged = 0\<rparr>"
  by (simp add: sample_store_def CCryptoKeyStore_new_def AddKeyPubKey_def IsCrypted_def
      CBasicKeyStore_AddKeyPubKey_def EncryptKeys_def AddCryptedKey_def SetCrypted_def sample_ids
      sample_ext_sel(9,10) sample_facts sample_box_eq)

lemma sample_attempts:
  "key_attempt sample_ext sample_master (i, sample_pubkey sample_key1, sample_box sample_master sample_key1) = Decrypted"
  "key_attempt sample_ext sample_master (i, sample_pubkey sample_key2, sample_box sample_master sample_key2) = Decrypted"
  "key_attempt sample_ext sample_master (i, sample_pubkey sample_key2, sample_box sample_other_master sample_key2) = Rejected"
  "key_attempt sample_ext sample_master (i, p, [0, 0, 0]) = Raised"
  "spending_key_attempt sample_ext sample_master (a, [0, 0, 0]) = Raised"
  by (simp_all add: key_attempt_def spending_key_attempt_def DecryptKey_def DecryptSpendingKey_def
      sample_DecryptKey_same [unfolded DecryptKey_def] sample_DecryptKey_other [unfolded DecryptKey_def]
      DecryptSecret_short_raises sample_facts sample_masters_differ sample_ext_sel(1))

lemma until_failure_all_decrypted:
  "\<forall>a \<in> set as. a = Decrypted \<Longrightarrow> until_failure as = as"
  by (induction as) auto

subsection \<open>Unlock by its attempts\<close>

lemma Unlock_mixed_aborts:
  assumes "fUseCrypto s"
    and "Decrypted \<in> set (Unlock_attempts X mk s)" and "Rejected \<in> set (Unlock_attempts X mk s)"
    and "Raised \<notin> set (Unlock_attempts X mk s)"
  shows "Unlock X mk s = (Abort, s)"
  using assms by (simp add: Unlock_by_attempts)

lemma Unlock_none_decrypted:
  assumes "fUseCrypto s" and "Decrypted \<notin> set (Unlock_attempts X mk s)"
  shows "Unlock X mk s = (if Raised \<in> set (Unlock_attempts X mk s) then Exn else Ret False, s)"
  using assms by (simp add: Unlock_by_attempts)

subsection \<open>Entering encrypted mode\<close>

lemma EncryptKeys_keys_crypted:
  "fUseCrypto s \<Longrightarrow> EncryptKeys_keys X mk es s = (r, s1) \<Longrightarrow>
   fUseCrypto s1 \<and> mapKeys s1 = mapKeys s \<and> mapSpendingKeys s1 = mapSpendingKeys s"
proof (induction es arbitrary: s)
  case Nil
  then show ?case by simp
next
  case (Cons e es)
  show ?case
  proof (cases "EncryptSecret X mk (Key_secret X (snd e)) (PubKey_GetHash X (Key_GetPubKey X (snd e)))")
    case (Ok ct)
    let ?s2 = "s\<lparr>mapCryptedKeys := map_assign (PubKey_GetID X (Key_GetPubKey X (snd e)))
                 (Key_GetPubKey X (snd e), ct) (mapCryptedKeys s)\<rparr>"
    have "EncryptKeys_keys X mk es ?s2 = (r, s1)"
      using Cons.prems Ok by (simp add: Let_def AddCryptedKey_crypted)
    moreover have "fUseCrypto ?s2" using Cons.prems(1) by simp
    ultimately show ?thesis using Cons.IH [of ?s2] by simp
  next
    case Failed
    then show ?thesis using Cons.prems by (auto simp: Let_def)
  next
    case Threw
    then show ?thesis using Cons.prems by (auto simp: Let_def)
  qed
qed

lemma EncryptKeys_spending_keys_crypted:
  "fUseCrypto s \<Longrightarrow> EncryptKeys_spending_keys X mk es s = (r, s1) \<Longrightarrow>
   fUseCrypto s1 \<and> mapKeys s1 = mapKeys s \<and> mapSpendingKeys s1 = mapSpendingKeys s"
proof (induction es arbitrary: s)
  case Nil
  then show ?case by simp
next
  case (Cons e es)
  show ?case
  proof (cases "EncryptSecret X mk (SK_serialize X (snd e)) (Addr_GetHash X (SK_address X (snd e)))")
    case (Ok ct)
    let ?s2 = "s\<lparr>mapCryptedSpendingKeys := map_assign (SK_address X (snd e)) ct (mapCryptedSpendingKeys s),
                 mapNoteDecryptors := map_insert (SK_address X (snd e)) (SK_viewing_key X (snd e))
                    (mapNoteDecryptors s)\<rparr>"
    have "EncryptKeys_spending_keys X mk es ?s2 = (r, s1)"
      using Cons.prems Ok by (simp add: Let_def AddCryptedSpendingKey_crypted)
    moreover have "fUseCrypto ?s2" using Cons.prems(1) by simp
    ultimately show ?thesis using Cons.IH [of ?s2] by simp
  next
    case Failed
    then show ?thesis using Cons.prems by (auto simp: Let_def)
  next
    case Threw
    then show ?thesis using Cons.prems by (auto simp: Let_def)
  qed
qed

lemma EncryptKeys_True:
  assumes "EncryptKeys X mk s0 = (Ret True, s)"
  shows "\<not> fUseCrypto s0 \<and> fUseCrypto s \<and> mapKeys s = [] \<and> mapSpendingKeys s = []"
proof -
  have p: "\<not> fUseCrypto s0" "mapCryptedKeys s0 = []"
    using assms by (auto simp: EncryptKeys_def IsCrypted_def split: if_splits)
  obtain r1 s1 where l1: "EncryptKeys_keys X mk (mapKeys s0) (s0\<lparr>fUseCrypto := True\<rparr>) = (r1, s1)"
    by (cases "EncryptKeys_keys X mk (mapKeys s0) (s0\<lparr>fUseCrypto := True\<rparr>)")
  obtain r2 s2 where l2: "EncryptKeys_spending_keys X mk (mapSpendingKeys s1) (s1\<lparr>mapKeys := []\<rparr>) = (r2, s2)"
    by (cases "EncryptKeys_spending_keys X mk (mapSpendingKeys s1) (s1\<lparr>mapKeys := []\<rparr>)")
  have c1: "fUseCrypto s1"
    using EncryptKeys_keys_crypted [OF _ l1] by simp
  have c2: "fUseCrypto s2" "mapKeys s2 = []"
    using EncryptKeys_spending_keys_crypted [OF _ l2] c1 by simp_all
  have "r1 = Ret True \<and> r2 = Ret True \<and> s = s2\<lparr>mapSpendingKeys := []\<rparr>"
    using assms p l1 l2
    by (auto simp: EncryptKeys_def IsCrypted_def split: status.splits bool.splits)
  then show ?thesis using p c2 by simp
qed

lemma SetCrypted_True:
  assumes "SetCrypted s0 = (True, s)"
  shows "fUseCrypto s \<and> (\<not> fUseCrypto s0 \<longrightarrow> mapKeys s = [] \<and> mapSpendingKeys s = [])"
  using assms by (auto simp: SetCrypted_def split: if_splits)

lemma AddKeyPubKey_crypted_cases:
  assumes "fUseCrypto s"
  shows "(\<exists>ct. AddKeyPubKey X key pubkey s =
            (Ret True, s\<lparr>mapCryptedKeys :=
               map_assign (PubKey_GetID X pubkey) (pubkey, ct) (mapCryptedKeys s)\<rparr>))
         \<or> AddKeyPubKey X key pubkey s = (Ret False, s)
         \<or> AddKeyPubKey X key pubkey s = (Exn, s)"
proof (cases "vMasterKey s = []")
  case True
  then show ?thesis by (simp add: AddKeyPubKey_crypted [OF assms])
next
  case False
  show ?thesis
  proof (cases "EncryptSecret X (vMasterKey s) (Key_secret X key) (PubKey_GetHash X pubkey)")
    case (Ok ct)
    then have "AddKeyPubKey X key pubkey s =
            (Ret True, s\<lparr>mapCryptedKeys :=
               map_assign (PubKey_GetID X pubkey) (pubkey, ct) (mapCryptedKeys s)\<rparr>)"
      using False by (simp add: AddKeyPubKey_crypted [OF assms])
    then show ?thesis by blast
  next
    case Failed
    then show ?thesis using False by (simp add: AddKeyPubKey_crypted [OF assms])
  next
    case Threw
    then show ?thesis using False by (simp add: AddKeyPubKey_crypted [OF assms])
  qed
qed

lemma AddSpendingKey_crypted_cases:
  assumes "fUseCrypto s"
  shows "(\<exists>ct. AddSpendingKey X sk s =
            (Ret True, s\<lparr>mapCryptedSpendingKeys :=
               map_assign (SK_address X sk) ct (mapCryptedSpendingKeys s),
             mapNoteDecryptors :=
               map_insert (SK_address X sk) (SK_viewing_key X sk) (mapNoteDecryptors s)\<rparr>))
         \<or> AddSpendingKey X sk s = (Ret False, s)
         \<or> AddSpendingKey X sk s = (Exn, s)"
proof (cases "vMasterKey s = []")
  case True
  then show ?thesis by (simp add: AddSpendingKey_crypted [OF assms])
next
  case False
  show ?thesis
  proof (cases "EncryptSecret X (vMasterKey s) (SK_serialize X sk) (Addr_GetHash X (SK_address X sk))")
    case (Ok ct)
    then have "AddSpendingKey X sk s =
            (Ret True, s\<lparr>mapCryptedSpendingKeys :=
               map_assign (SK_address X sk) ct (mapCryptedSpendingKeys s),
             mapNoteDecryptors :=
               map_insert (SK_address X sk) (SK_viewing_key X sk) (mapNoteDecryptors s)\<rparr>)"
      using False by (simp add: AddSpendingKey_crypted [OF assms])
    then show ?thesis by blast
  next
    case Failed
    then show ?thesis using False by (simp add: AddSpendingKey_crypted [OF assms])
  next
    case Threw
    then show ?thesis using False by (simp add: AddSpendingKey_crypted [OF assms])
  qed
qed

lemma sample_store_migrated:
  "EncryptKeys sample_ext sample_master
     (run sample_ext
        [OpAddKeyPubKey sample_key1 (sample_pubkey sample_key1),
         OpAddKeyPubKey sample_key2 (sample_pubkey sample_key2)]
        CCryptoKeyStore_new)
   = (Ret True, sample_store)"
  unfolding sample_store_eq
  by (simp add: CCryptoKeyStore_new_def AddKeyPubKey_def IsCrypted_def
      CBasicKeyStore_AddKeyPubKey_def EncryptKeys_def AddCryptedKey_def SetCrypted_def sample_ids
      sample_ext_sel(9,10) sample_facts sample_box_eq)

subsection \<open>Lookup after assignment\<close>


section \<open>The claims\<close>

subsection \<open>C1: a derivation method other than 0\<close>

text \<open>
  C1 asks that \<open>SetKeyFromPassphrase\<close> fails for every derivation method other than 0
  (rounds at least 1, salt of the fixed size) and leaves the cipher not ready. The source
  guards only the derivation with \<^verbatim>\<open>if (nDerivationMethod == 0)\<close> and has no branch for
  the other methods: what the theorem proves is that such a call returns true and sets
  \<open>fKeySet\<close>, with key and IV as they were, so the claim does not hold of the code.
\<close>

theorem SetKeyFromPassphrase_other_method:
  assumes "nDerivationMethod \<noteq> 0" and "1 \<le> nRounds"
    and "length chSalt = WALLET_CRYPTO_SALT_SIZE X"
  shows "SetKeyFromPassphrase X strKeyData chSalt nRounds nDerivationMethod params c
           = (True, c\<lparr>fKeySet := True\<rparr>)"
  using assms by (auto simp: SetKeyFromPassphrase_def)

theorem SetKeyFromPassphrase_other_method_witness:
  "(1 :: 32 word) \<noteq> 0 \<and> (1 :: 32 word) \<le> 1
   \<and> length (replicate 8 (0 :: byte)) = WALLET_CRYPTO_SALT_SIZE sample_ext
   \<and> SetKeyFromPassphrase sample_ext [112, 119] (replicate 8 0) 1 1 [] CCrypter_new
         = (True, CCrypter_new\<lparr>fKeySet := True\<rparr>)
   \<and> fKeySet (snd (SetKeyFromPassphrase sample_ext [112, 119] (replicate 8 0) 1 1 [] CCrypter_new))"
proof -
  have h: "(1 :: 32 word) \<noteq> 0" "(1 :: 32 word) \<le> 1"
    "length (replicate 8 (0 :: byte)) = WALLET_CRYPTO_SALT_SIZE sample_ext"
    by (simp_all add: sample_ext_def)
  show ?thesis
    using SetKeyFromPassphrase_other_method [OF h, of "[112, 119]" "[]" CCrypter_new] h by simp
qed

subsection \<open>C2: which records Unlock attempts\<close>

text \<open>
  C2 says that \<open>Unlock\<close> stops after the first successful decryption of each kind unless
  the thorough flag is set, and that once an unlock has verified all entries every later
  unlock verifies all entries. The source has it the other way round:
  \<^verbatim>\<open>if (fDecryptionThoroughlyChecked) break;\<close> ends a loop after its first success once
  the flag is set, and a successful \<open>Unlock\<close> sets the flag. On the migrated store of the
  small instance, with the flag clear and two records, \<open>Unlock\<close> attempts both records
  and succeeds; the flag is then set, and the next \<open>Unlock\<close> attempts one of the two.
\<close>

theorem Unlock_spot_check_counterexample:
  "\<not> fDecryptionThoroughlyChecked sample_store
   \<and> length (mapCryptedKeys sample_store) = 2
   \<and> Unlock_attempts sample_ext sample_master sample_store = [Decrypted, Decrypted]
   \<and> fst (Unlock sample_ext sample_master sample_store) = Ret True
   \<and> fDecryptionThoroughlyChecked (snd (Unlock sample_ext sample_master sample_store))
   \<and> length (mapCryptedKeys (snd (Unlock sample_ext sample_master sample_store))) = 2
   \<and> Unlock_attempts sample_ext sample_master (snd (Unlock sample_ext sample_master sample_store))
        = [Decrypted]"
proof -
  have c: "fUseCrypto sample_store" by (simp add: sample_store_eq)
  have a: "Unlock_attempts sample_ext sample_master sample_store = [Decrypted, Decrypted]"
    unfolding Unlock_attempts_crypted [OF c]
    by (simp add: scan_attempts_def walked_def sample_store_eq sample_attempts)
  have u: "Unlock sample_ext sample_master sample_store =
             (Ret True, sample_store\<lparr>vMasterKey := sample_master, fDecryptionThoroughlyChecked := True,
                 nStatusChanged := Suc (nStatusChanged sample_store)\<rparr>)"
    using a by (simp add: Unlock_by_attempts [OF c])
  let ?s = "sample_store\<lparr>vMasterKey := sample_master, fDecryptionThoroughlyChecked := True,
                 nStatusChanged := Suc (nStatusChanged sample_store)\<rparr>"
  have c2: "fUseCrypto ?s" using c by simp
  have a2: "Unlock_attempts sample_ext sample_master ?s = [Decrypted]"
    unfolding Unlock_attempts_crypted [OF c2]
    by (simp add: scan_attempts_def walked_def sample_store_eq sample_attempts)
  show ?thesis
    unfolding u using a a2 by (simp add: sample_store_eq)
qed

text \<open>
  C2 as amended. On a store in encrypted mode \<open>Unlock\<close> walks the transparent-key records
  and then the spending-key records in key order, and each walk ends at the first decryption
  that does not succeed (the second walk is not started when an exception left the first).
  While \<open>fDecryptionThoroughlyChecked\<close> is clear a walk goes on after every success, so
  that every record of both kinds is attempted when every record decrypts; once the flag is
  set a walk makes one attempt only. An \<open>Unlock\<close> that returns true leaves the flag set,
  and no sequence of calls clears it: the first successful unlock is the exhaustive one and
  the later ones are spot checks.
\<close>

theorem Unlock_thorough_once:
  assumes "fUseCrypto s"
  shows "(\<not> fDecryptionThoroughlyChecked s \<longrightarrow>
            Unlock_attempts X mk s =
              (let a = until_failure (map (key_attempt X mk) (mapCryptedKeys s))
               in if Raised \<in> set a then a
                  else a @ until_failure (map (spending_key_attempt X mk) (mapCryptedSpendingKeys s))))
       \<and> (\<not> fDecryptionThoroughlyChecked s
            \<and> (\<forall>mi \<in> set (mapCryptedKeys s). key_attempt X mk mi = Decrypted)
            \<and> (\<forall>skmi \<in> set (mapCryptedSpendingKeys s). spending_key_attempt X mk skmi = Decrypted) \<longrightarrow>
            Unlock_attempts X mk s
              = replicate (length (mapCryptedKeys s) + length (mapCryptedSpendingKeys s)) Decrypted)
       \<and> (fDecryptionThoroughlyChecked s \<longrightarrow>
            Unlock_attempts X mk s =
              (let a = take 1 (map (key_attempt X mk) (mapCryptedKeys s))
               in if Raised \<in> set a then a
                  else a @ take 1 (map (spending_key_attempt X mk) (mapCryptedSpendingKeys s))))
       \<and> (\<forall>s1. Unlock X mk s = (Ret True, s1) \<longrightarrow> fDecryptionThoroughlyChecked s1)
       \<and> (fDecryptionThoroughlyChecked s \<longrightarrow> (\<forall>cs. fDecryptionThoroughlyChecked (run X cs s)))"
proof -
  have all: "until_failure (map f es) = replicate (length es) Decrypted"
    if "\<forall>e \<in> set es. f e = Decrypted" for f :: "'e \<Rightarrow> attempt" and es
  proof -
    have "map f es = replicate (length es) Decrypted"
      using that by (induction es) auto
    then show ?thesis by (simp add: until_failure_all_decrypted)
  qed
  have 1: "\<not> fDecryptionThoroughlyChecked s \<longrightarrow>
            Unlock_attempts X mk s =
              (let a = until_failure (map (key_attempt X mk) (mapCryptedKeys s))
               in if Raised \<in> set a then a
                  else a @ until_failure (map (spending_key_attempt X mk) (mapCryptedSpendingKeys s)))"
    by (simp add: Unlock_attempts_crypted [OF assms] scan_attempts_def walked_def Let_def)
  have 2: "\<not> fDecryptionThoroughlyChecked s
            \<and> (\<forall>mi \<in> set (mapCryptedKeys s). key_attempt X mk mi = Decrypted)
            \<and> (\<forall>skmi \<in> set (mapCryptedSpendingKeys s). spending_key_attempt X mk skmi = Decrypted) \<longrightarrow>
            Unlock_attempts X mk s
              = replicate (length (mapCryptedKeys s) + length (mapCryptedSpendingKeys s)) Decrypted"
    by (auto simp: Unlock_attempts_crypted [OF assms] scan_attempts_def walked_def all
        replicate_add Let_def)
  have 3: "fDecryptionThoroughlyChecked s \<longrightarrow>
            Unlock_attempts X mk s =
              (let a = take 1 (map (key_attempt X mk) (mapCryptedKeys s))
               in if Raised \<in> set a then a
                  else a @ take 1 (map (spending_key_attempt X mk) (mapCryptedSpendingKeys s)))"
    by (simp add: Unlock_attempts_crypted [OF assms] scan_attempts_def walked_def Let_def)
  have 4: "\<forall>s1. Unlock X mk s = (Ret True, s1) \<longrightarrow> fDecryptionThoroughlyChecked s1"
    by (auto simp: Unlock_by_attempts [OF assms] split: if_splits)
  have 5: "fDecryptionThoroughlyChecked s \<longrightarrow> (\<forall>cs. fDecryptionThoroughlyChecked (run X cs s))"
    using run_checked by blast
  from 1 2 3 4 5 show ?thesis by blast
qed

theorem Unlock_thorough_once_witness:
  "fUseCrypto sample_store \<and> \<not> fDecryptionThoroughlyChecked sample_store
   \<and> Unlock_attempts sample_ext sample_master sample_store
        = replicate (length (mapCryptedKeys sample_store) + length (mapCryptedSpendingKeys sample_store))
            Decrypted
   \<and> fDecryptionThoroughlyChecked (snd (Unlock sample_ext sample_master sample_store))"
proof -
  have h: "fUseCrypto sample_store" "\<not> fDecryptionThoroughlyChecked sample_store"
    "\<forall>mi \<in> set (mapCryptedKeys sample_store). key_attempt sample_ext sample_master mi = Decrypted"
    "\<forall>skmi \<in> set (mapCryptedSpendingKeys sample_store).
         spending_key_attempt sample_ext sample_master skmi = Decrypted"
    by (simp_all add: sample_store_eq sample_attempts)
  note t = Unlock_thorough_once [OF h(1), of sample_ext sample_master]
  have a: "Unlock_attempts sample_ext sample_master sample_store
        = replicate (length (mapCryptedKeys sample_store) + length (mapCryptedSpendingKeys sample_store))
            Decrypted"
    using t h by blast
  then have "Unlock_attempts sample_ext sample_master sample_store = [Decrypted, Decrypted]"
    by (simp add: sample_store_eq)
  then have "fst (Unlock sample_ext sample_master sample_store) = Ret True"
    by (simp add: Unlock_by_attempts [OF h(1)])
  then have "Unlock sample_ext sample_master sample_store
               = (Ret True, snd (Unlock sample_ext sample_master sample_store))"
    by (metis prod.collapse)
  then have "fDecryptionThoroughlyChecked (snd (Unlock sample_ext sample_master sample_store))"
    using t by blast
  then show ?thesis using h(1,2) a by blast
qed

subsection \<open>C3: some records decrypt and some do not\<close>

text \<open>
  C3 asks that \<open>Unlock\<close> ends the process whenever, among the decryptions it attempts,
  one succeeds and one fails. That is what \<open>Unlock_mixed_aborts\<close> above proves for every
  run in which no decryption raises. It is not so for every run. Take a store in encrypted
  mode, not yet thoroughly checked, whose first transparent-key record decrypts under the
  candidate key, whose second does not, and whose first spending-key record has a
  ciphertext shorter than the tag. The first loop sees a success and then a failure and
  breaks; the second loop calls \<open>DecryptSpendingKey\<close> on the short ciphertext,
  \<open>Decrypt\<close> raises on the negative plaintext length (see C4), and the exception leaves
  \<open>Unlock\<close> before \<^verbatim>\<open>assert(false)\<close> is reached. The store is unchanged and no master
  key is adopted. The theorem holds for every instance of the external parameters; the
  store \<open>mixed_store\<close> of the small instance is such a store.
\<close>

theorem Unlock_mixed_then_short_record:
  assumes "fUseCrypto s" and "\<not> fDecryptionThoroughlyChecked s"
    and "length vMasterKeyIn = WALLET_CRYPTO_KEY_SIZE" and "crypto_secretbox_MACBYTES X < 2 ^ 31"
    and "mapCryptedKeys s = mi1 # mi2 # rest"
    and "key_attempt X vMasterKeyIn mi1 = Decrypted" and "key_attempt X vMasterKeyIn mi2 = Rejected"
    and "mapCryptedSpendingKeys s = (address, vchCryptedSecret) # rest_spending"
    and "length vchCryptedSecret < crypto_secretbox_MACBYTES X"
  shows "Unlock_attempts X vMasterKeyIn s = [Decrypted, Rejected, Raised]
       \<and> Unlock X vMasterKeyIn s = (Exn, s)"
proof -
  have k: "length vMasterKeyIn = 32"
    using assms(3) by (simp add: WALLET_CRYPTO_KEY_SIZE_def)
  have "spending_key_attempt X vMasterKeyIn (address, vchCryptedSecret) = Raised"
    by (simp add: spending_key_attempt_def DecryptSpendingKey_def
        DecryptSecret_short_raises [OF k assms(9,4)])
  then have a: "Unlock_attempts X vMasterKeyIn s = [Decrypted, Rejected, Raised]"
    unfolding Unlock_attempts_crypted [OF assms(1)]
    using assms(2) by (simp add: scan_attempts_def walked_def assms(5,6,7,8))
  then show ?thesis by (simp add: Unlock_by_attempts [OF assms(1)])
qed

theorem Unlock_mixed_then_short_record_witness:
  "fUseCrypto mixed_store \<and> \<not> fDecryptionThoroughlyChecked mixed_store
   \<and> length sample_master = WALLET_CRYPTO_KEY_SIZE
   \<and> crypto_secretbox_MACBYTES sample_ext < 2 ^ 31
   \<and> mapCryptedKeys mixed_store =
        [(130, sample_pubkey sample_key1, sample_box sample_master sample_key1),
         (162, sample_pubkey sample_key2, sample_box sample_other_master sample_key2)]
   \<and> key_attempt sample_ext sample_master
        (130, sample_pubkey sample_key1, sample_box sample_master sample_key1) = Decrypted
   \<and> key_attempt sample_ext sample_master
        (162, sample_pubkey sample_key2, sample_box sample_other_master sample_key2) = Rejected
   \<and> mapCryptedSpendingKeys mixed_store = [((1, 2), [0, 0, 0])]
   \<and> length [0, 0, 0 :: byte] < crypto_secretbox_MACBYTES sample_ext
   \<and> Unlock_attempts sample_ext sample_master mixed_store = [Decrypted, Rejected, Raised]
   \<and> Unlock sample_ext sample_master mixed_store = (Exn, mixed_store)"
proof -
  have h: "fUseCrypto mixed_store" "\<not> fDecryptionThoroughlyChecked mixed_store"
    "length sample_master = WALLET_CRYPTO_KEY_SIZE"
    "crypto_secretbox_MACBYTES sample_ext < 2 ^ 31"
    "mapCryptedKeys mixed_store =
        [(130, sample_pubkey sample_key1, sample_box sample_master sample_key1),
         (162, sample_pubkey sample_key2, sample_box sample_other_master sample_key2)]"
    "key_attempt sample_ext sample_master
        (130, sample_pubkey sample_key1, sample_box sample_master sample_key1) = Decrypted"
    "key_attempt sample_ext sample_master
        (162, sample_pubkey sample_key2, sample_box sample_other_master sample_key2) = Rejected"
    "mapCryptedSpendingKeys mixed_store = [((1, 2), [0, 0, 0])]"
    "length [0, 0, 0 :: byte] < crypto_secretbox_MACBYTES sample_ext"
    by (simp_all add: mixed_store_eq sample_facts sample_ext_sel WALLET_CRYPTO_KEY_SIZE_def
        sample_attempts)
  show ?thesis
    using Unlock_mixed_then_short_record [OF h] h by blast
qed

subsection \<open>C4: a ciphertext shorter than the tag\<close>

text \<open>
  C4 asks that \<open>Decrypt\<close>, with the key set, fails with a result on a ciphertext shorter
  than the authentication tag and never requests a buffer of negative size, and that a
  successful call returns the ciphertext length minus the tag length bytes. The theorem
  proves what the source does: on a ciphertext shorter than the tag the plaintext length is
  negative, the construction of the plaintext buffer raises, and the exception leaves
  \<open>Decrypt\<close> (the first half of the claim fails); a successful call on a ciphertext whose
  length fits in an \<^verbatim>\<open>int\<close> returns exactly the length minus the tag length bytes (the
  second half holds).
\<close>

theorem Decrypt_short_ciphertext:
  assumes "fKeySet c" and "crypto_secretbox_MACBYTES X < 2 ^ 31"
  shows "(length vchCiphertext < crypto_secretbox_MACBYTES X \<longrightarrow> Decrypt X c vchCiphertext = Threw)
       \<and> (\<forall>p. length vchCiphertext < 2 ^ 31 \<and> Decrypt X c vchCiphertext = Ok p
              \<longrightarrow> length p + crypto_secretbox_MACBYTES X = length vchCiphertext)"
  using assms Decrypt_short_raises [of c vchCiphertext X] Decrypt_Ok_length [of X c vchCiphertext]
  by blast

theorem Decrypt_short_ciphertext_witness:
  "fKeySet (CCrypter_new\<lparr>fKeySet := True\<rparr>) \<and> crypto_secretbox_MACBYTES sample_ext < 2 ^ 31
   \<and> length (replicate 15 (0 :: byte)) < crypto_secretbox_MACBYTES sample_ext
   \<and> Decrypt sample_ext (CCrypter_new\<lparr>fKeySet := True\<rparr>) (replicate 15 0) = Threw"
proof -
  have h: "fKeySet (CCrypter_new\<lparr>fKeySet := True\<rparr>)" "crypto_secretbox_MACBYTES sample_ext < 2 ^ 31"
    by (simp_all add: sample_ext_def)
  have l: "length (replicate 15 (0 :: byte)) < crypto_secretbox_MACBYTES sample_ext"
    by (simp add: sample_ext_def)
  show ?thesis
    using Decrypt_short_ciphertext [OF h, of "replicate 15 0"] h l by blast
qed

subsection \<open>C5: SetCrypted\<close>

text \<open>
  C5. \<open>SetCrypted\<close> returns true and changes nothing when the store is already in
  encrypted mode; in plain mode with both plaintext maps empty it sets the mode flag and
  returns true; in plain mode with an entry in either plaintext map it returns false and
  the store, its mode flag included, is as before.
\<close>

theorem SetCrypted_outcomes:
  "(fUseCrypto s \<longrightarrow> SetCrypted s = (True, s))
   \<and> (\<not> fUseCrypto s \<and> mapKeys s = [] \<and> mapSpendingKeys s = []
        \<longrightarrow> SetCrypted s = (True, s\<lparr>fUseCrypto := True\<rparr>))
   \<and> (\<not> fUseCrypto s \<and> (mapKeys s \<noteq> [] \<or> mapSpendingKeys s \<noteq> [])
        \<longrightarrow> SetCrypted s = (False, s) \<and> \<not> fUseCrypto (snd (SetCrypted s)))"
  by (auto simp: SetCrypted_def)

theorem SetCrypted_outcomes_witness:
  "SetCrypted (CCryptoKeyStore_new\<lparr>fUseCrypto := True\<rparr>) = (True, CCryptoKeyStore_new\<lparr>fUseCrypto := True\<rparr>)
   \<and> SetCrypted CCryptoKeyStore_new = (True, CCryptoKeyStore_new\<lparr>fUseCrypto := True\<rparr>)
   \<and> SetCrypted (CCryptoKeyStore_new\<lparr>mapKeys := [(1, sample_key1)]\<rparr>)
        = (False, CCryptoKeyStore_new\<lparr>mapKeys := [(1, sample_key1)]\<rparr>)"
  using SetCrypted_outcomes [of "CCryptoKeyStore_new\<lparr>fUseCrypto := True\<rparr>"]
    SetCrypted_outcomes [of CCryptoKeyStore_new]
    SetCrypted_outcomes [of "CCryptoKeyStore_new\<lparr>mapKeys := [(1, sample_key1)]\<rparr>"]
  by (simp add: CCryptoKeyStore_new_def)

subsection \<open>C6: encrypted mode is one-way\<close>

text \<open>
  C6. Let \<open>SetCrypted\<close> or \<open>EncryptKeys\<close> have returned true, leaving the store \<open>s\<close>.
  Then \<open>s\<close> is in encrypted mode, and its plaintext maps are empty if the call started in
  plain mode. After every further sequence of calls the store is still in encrypted mode and
  its plaintext maps are the ones of \<open>s\<close>: no call populates them. In every such later
  store \<open>EncryptKeys\<close> returns false and changes nothing, and \<open>AddKeyPubKey\<close> and
  \<open>AddSpendingKey\<close> either return true with one encrypted record assigned, or return false
  or raise with the store unchanged.
\<close>

theorem encrypted_mode_is_one_way:
  assumes "SetCrypted s0 = (True, s) \<or> EncryptKeys X mk0 s0 = (Ret True, s)"
  shows "fUseCrypto s
       \<and> (\<not> fUseCrypto s0 \<longrightarrow> mapKeys s = [] \<and> mapSpendingKeys s = [])
       \<and> (\<forall>cs. fUseCrypto (run X cs s) \<and> mapKeys (run X cs s) = mapKeys s
              \<and> mapSpendingKeys (run X cs s) = mapSpendingKeys s
              \<and> (\<forall>mk. EncryptKeys X mk (run X cs s) = (Ret False, run X cs s))
              \<and> (\<forall>key pubkey.
                    (\<exists>ct. AddKeyPubKey X key pubkey (run X cs s) =
                       (Ret True, (run X cs s)\<lparr>mapCryptedKeys :=
                          map_assign (PubKey_GetID X pubkey) (pubkey, ct) (mapCryptedKeys (run X cs s))\<rparr>))
                    \<or> AddKeyPubKey X key pubkey (run X cs s) = (Ret False, run X cs s)
                    \<or> AddKeyPubKey X key pubkey (run X cs s) = (Exn, run X cs s))
              \<and> (\<forall>sk.
                    (\<exists>ct. AddSpendingKey X sk (run X cs s) =
                       (Ret True, (run X cs s)\<lparr>mapCryptedSpendingKeys :=
                          map_assign (SK_address X sk) ct (mapCryptedSpendingKeys (run X cs s)),
                        mapNoteDecryptors :=
                          map_insert (SK_address X sk) (SK_viewing_key X sk)
                            (mapNoteDecryptors (run X cs s))\<rparr>))
                    \<or> AddSpendingKey X sk (run X cs s) = (Ret False, run X cs s)
                    \<or> AddSpendingKey X sk (run X cs s) = (Exn, run X cs s)))"
proof -
  have c: "fUseCrypto s" and e: "\<not> fUseCrypto s0 \<longrightarrow> mapKeys s = [] \<and> mapSpendingKeys s = []"
    using assms SetCrypted_True [of s0 s] EncryptKeys_True [of X mk0 s0 s] by auto
  have c1: "fUseCrypto (run X cs s)" for cs
    using run_crypted [OF c, of X cs] by simp
  show ?thesis
  proof (intro conjI allI)
    show "fUseCrypto s" by (rule c)
    show "\<not> fUseCrypto s0 \<longrightarrow> mapKeys s = [] \<and> mapSpendingKeys s = []" by (rule e)
    show "fUseCrypto (run X cs s)" for cs by (rule c1)
    show "mapKeys (run X cs s) = mapKeys s" for cs
      using run_crypted [OF c, of X cs] by simp
    show "mapSpendingKeys (run X cs s) = mapSpendingKeys s" for cs
      using run_crypted [OF c, of X cs] by simp
    show "EncryptKeys X mk (run X cs s) = (Ret False, run X cs s)" for cs mk
      by (rule EncryptKeys_crypted [OF c1])
    show "(\<exists>ct. AddKeyPubKey X key pubkey (run X cs s) =
                       (Ret True, (run X cs s)\<lparr>mapCryptedKeys :=
                          map_assign (PubKey_GetID X pubkey) (pubkey, ct) (mapCryptedKeys (run X cs s))\<rparr>))
                    \<or> AddKeyPubKey X key pubkey (run X cs s) = (Ret False, run X cs s)
                    \<or> AddKeyPubKey X key pubkey (run X cs s) = (Exn, run X cs s)" for cs key pubkey
      by (rule AddKeyPubKey_crypted_cases [OF c1])
    show "(\<exists>ct. AddSpendingKey X sk (run X cs s) =
                       (Ret True, (run X cs s)\<lparr>mapCryptedSpendingKeys :=
                          map_assign (SK_address X sk) ct (mapCryptedSpendingKeys (run X cs s)),
                        mapNoteDecryptors :=
                          map_insert (SK_address X sk) (SK_viewing_key X sk)
                            (mapNoteDecryptors (run X cs s))\<rparr>))
                    \<or> AddSpendingKey X sk (run X cs s) = (Ret False, run X cs s)
                    \<or> AddSpendingKey X sk (run X cs s) = (Exn, run X cs s)" for cs sk
      by (rule AddSpendingKey_crypted_cases [OF c1])
  qed
qed

theorem encrypted_mode_is_one_way_witness:
  "SetCrypted CCryptoKeyStore_new = (True, CCryptoKeyStore_new\<lparr>fUseCrypto := True\<rparr>)
   \<and> fUseCrypto (run sample_ext [OpLock, OpUnlock sample_master] (CCryptoKeyStore_new\<lparr>fUseCrypto := True\<rparr>))
   \<and> EncryptKeys sample_ext sample_master
         (run sample_ext [OpLock, OpUnlock sample_master] (CCryptoKeyStore_new\<lparr>fUseCrypto := True\<rparr>))
       = (Ret False, run sample_ext [OpLock, OpUnlock sample_master] (CCryptoKeyStore_new\<lparr>fUseCrypto := True\<rparr>))
   \<and> fUseCrypto sample_store \<and> mapKeys sample_store = [] \<and> mapSpendingKeys sample_store = []
   \<and> mapKeys (run sample_ext [OpUnlock sample_master, OpAddKeyPubKey sample_key1 (sample_pubkey sample_key1)]
                 sample_store) = []
   \<and> EncryptKeys sample_ext sample_other_master sample_store = (Ret False, sample_store)"
proof -
  have h1: "SetCrypted CCryptoKeyStore_new = (True, CCryptoKeyStore_new\<lparr>fUseCrypto := True\<rparr>)"
    by (simp add: SetCrypted_def CCryptoKeyStore_new_def)
  have p: "\<not> fUseCrypto (run sample_ext
        [OpAddKeyPubKey sample_key1 (sample_pubkey sample_key1),
         OpAddKeyPubKey sample_key2 (sample_pubkey sample_key2)]
        CCryptoKeyStore_new)"
    by (simp add: CCryptoKeyStore_new_def AddKeyPubKey_def IsCrypted_def CBasicKeyStore_AddKeyPubKey_def)
  note a = encrypted_mode_is_one_way [OF disjI1, OF h1, of sample_ext]
  note b = encrypted_mode_is_one_way [OF disjI2, OF sample_store_migrated]
  have b0: "fUseCrypto sample_store \<and> mapKeys sample_store = [] \<and> mapSpendingKeys sample_store = []"
    using b p by blast
  have b1: "mapKeys (run sample_ext [OpUnlock sample_master, OpAddKeyPubKey sample_key1 (sample_pubkey sample_key1)]
                 sample_store) = mapKeys sample_store"
    using b by blast
  have b2: "EncryptKeys sample_ext sample_other_master (run sample_ext [] sample_store)
              = (Ret False, run sample_ext [] sample_store)"
    using b by blast
  have a1: "fUseCrypto (run sample_ext [OpLock, OpUnlock sample_master] (CCryptoKeyStore_new\<lparr>fUseCrypto := True\<rparr>))"
    using a by blast
  have a2: "EncryptKeys sample_ext sample_master
         (run sample_ext [OpLock, OpUnlock sample_master] (CCryptoKeyStore_new\<lparr>fUseCrypto := True\<rparr>))
       = (Ret False, run sample_ext [OpLock, OpUnlock sample_master] (CCryptoKeyStore_new\<lparr>fUseCrypto := True\<rparr>))"
    using a by blast
  show ?thesis using h1 a1 a2 b0 b1 b2 by simp
qed

subsection \<open>C7: no record decrypts\<close>

text \<open>
  C7 asks that \<open>Unlock\<close> on a store in encrypted mode returns false, with the store
  unchanged and no notification, whenever no attempted decryption succeeds.
  \<open>Unlock_none_decrypted\<close> above proves that the store is unchanged in every such run
  and that false is returned when no decryption raises. It is not returned in every run:
  on a store in encrypted mode whose first transparent-key record has a ciphertext shorter
  than the tag, \<open>DecryptKey\<close> reaches \<open>Decrypt\<close>, which raises on the negative
  plaintext length (see C4), and the exception leaves \<open>Unlock\<close> in place of the return
  value, with the store unchanged. The theorem holds for every instance of the external
  parameters; the store \<open>short_store\<close> of the small instance is such a store.
\<close>

theorem Unlock_short_first_record:
  assumes "fUseCrypto s" and "length vMasterKeyIn = WALLET_CRYPTO_KEY_SIZE"
    and "crypto_secretbox_MACBYTES X < 2 ^ 31"
    and "mapCryptedKeys s = (address, vchPubKey, vchCryptedSecret) # rest"
    and "length vchCryptedSecret < crypto_secretbox_MACBYTES X"
  shows "Unlock_attempts X vMasterKeyIn s = [Raised] \<and> Unlock X vMasterKeyIn s = (Exn, s)"
proof -
  have k: "length vMasterKeyIn = 32"
    using assms(2) by (simp add: WALLET_CRYPTO_KEY_SIZE_def)
  have "key_attempt X vMasterKeyIn (address, vchPubKey, vchCryptedSecret) = Raised"
    by (simp add: key_attempt_def DecryptKey_def DecryptSecret_short_raises [OF k assms(5,3)])
  then have a: "Unlock_attempts X vMasterKeyIn s = [Raised]"
    unfolding Unlock_attempts_crypted [OF assms(1)]
    by (simp add: scan_attempts_def walked_def assms(4))
  then show ?thesis by (simp add: Unlock_by_attempts [OF assms(1)])
qed

theorem Unlock_short_first_record_witness:
  "fUseCrypto short_store \<and> length sample_master = WALLET_CRYPTO_KEY_SIZE
   \<and> crypto_secretbox_MACBYTES sample_ext < 2 ^ 31
   \<and> mapCryptedKeys short_store = [(130, sample_pubkey sample_key1, [0, 0, 0])]
   \<and> length [0, 0, 0 :: byte] < crypto_secretbox_MACBYTES sample_ext
   \<and> Unlock_attempts sample_ext sample_master short_store = [Raised]
   \<and> Unlock sample_ext sample_master short_store = (Exn, short_store)"
proof -
  have h: "fUseCrypto short_store" "length sample_master = WALLET_CRYPTO_KEY_SIZE"
    "crypto_secretbox_MACBYTES sample_ext < 2 ^ 31"
    "mapCryptedKeys short_store = [(130, sample_pubkey sample_key1, [0, 0, 0])]"
    "length [0, 0, 0 :: byte] < crypto_secretbox_MACBYTES sample_ext"
    by (simp_all add: short_store_eq sample_facts sample_ext_sel WALLET_CRYPTO_KEY_SIZE_def)
  show ?thesis
    using Unlock_short_first_record [OF h] h by blast
qed

subsection \<open>C8: GetKey on an encrypted store\<close>



subsection \<open>C9: encryption round trip\<close>

text \<open>
  C9 says that for every keying-material buffer \<open>m\<close> and every key and nonce of the fixed
  size, decrypting what \<open>Encrypt\<close> produced for \<open>m\<close> succeeds and returns \<open>m\<close>. The
  source computes the ciphertext length in an \<^verbatim>\<open>int\<close>:
  \<^verbatim>\<open>int nCLen = nLen + crypto_secretbox_MACBYTES\<close>. For a buffer of 2147483632 bytes and
  a tag of 16 bytes the sum is 2^31, which is negative as an \<^verbatim>\<open>int\<close>; the construction
  of the ciphertext buffer raises and \<open>Encrypt\<close>, and \<open>EncryptSecret\<close> with it,
  produces no ciphertext to decrypt.
\<close>

theorem Encrypt_Decrypt_round_trip_counterexample:
  "length sample_master = WALLET_CRYPTO_KEY_SIZE
   \<and> length sample_other_master = WALLET_CRYPTO_KEY_SIZE
   \<and> SetKey sample_master sample_other_master CCrypter_new
        = (True, CCrypter_new\<lparr>chKey := sample_master, chIV := sample_other_master, fKeySet := True\<rparr>)
   \<and> Encrypt sample_ext
         (CCrypter_new\<lparr>chKey := sample_master, chIV := sample_other_master, fKeySet := True\<rparr>)
         (replicate 2147483632 0) = Threw
   \<and> EncryptSecret sample_ext sample_master (replicate 2147483632 0) 5 = Threw"
proof -
  have l: "length (replicate 2147483632 (0 :: byte)) + crypto_secretbox_MACBYTES sample_ext = 2 ^ 31"
    by (simp add: sample_ext_sel)
  have k: "length sample_master = 32" "length sample_other_master = 32"
    by (simp_all add: sample_facts)
  have e: "Encrypt sample_ext c (replicate 2147483632 0) = Threw" if "fKeySet c" for c
    using Encrypt_large_raises [OF that l] .
  show ?thesis
    using k by (simp add: WALLET_CRYPTO_KEY_SIZE_def SetKey_32 EncryptSecret_def e)
qed

text \<open>
  C9 as amended. For every keying-material buffer \<open>m\<close> whose length plus the tag length
  is below 2^31, so that it fits in the \<^verbatim>\<open>int\<close> of the source, and every key and nonce
  of the fixed size, decrypting what \<open>Encrypt\<close> produced for \<open>m\<close> under the same key and
  nonce succeeds and returns exactly \<open>m\<close>; the same holds for \<open>EncryptSecret\<close> and
  \<open>DecryptSecret\<close> under a master key of the fixed size and any entry nonce. The secret
  box is a parameter and is taken to meet its contract: opening inverts sealing.
\<close>

theorem Encrypt_Decrypt_round_trip:
  assumes "secretbox_contract X"
    and "length key = WALLET_CRYPTO_KEY_SIZE" and "length iv = WALLET_CRYPTO_KEY_SIZE"
    and "length m + crypto_secretbox_MACBYTES X < 2 ^ 31"
  shows "(\<exists>c1 ct. SetKey key iv c = (True, c1) \<and> Encrypt X c1 m = Ok ct \<and> Decrypt X c1 ct = Ok m)
       \<and> (\<exists>ct. EncryptSecret X key m nIV = Ok ct \<and> DecryptSecret X key ct nIV = Ok m)"
proof -
  have k: "length key = 32" "length iv = 32"
    using assms(2,3) by (simp_all add: WALLET_CRYPTO_KEY_SIZE_def)
  have "\<exists>c1 ct. SetKey key iv c = (True, c1) \<and> Encrypt X c1 m = Ok ct \<and> Decrypt X c1 ct = Ok m"
    using Encrypt_Decrypt [OF assms(1), of "c\<lparr>chKey := key, chIV := iv, fKeySet := True\<rparr>" m] k assms(4)
    by (auto simp: SetKey_32)
  moreover have "\<exists>ct. EncryptSecret X key m nIV = Ok ct \<and> DecryptSecret X key ct nIV = Ok m"
    using EncryptSecret_DecryptSecret [OF assms(1) k(1) assms(4), of nIV] by blast
  ultimately show ?thesis by blast
qed

theorem Encrypt_Decrypt_round_trip_witness:
  "secretbox_contract sample_ext
   \<and> length sample_master = WALLET_CRYPTO_KEY_SIZE
   \<and> length sample_other_master = WALLET_CRYPTO_KEY_SIZE
   \<and> length [1, 2, 3 :: byte] + crypto_secretbox_MACBYTES sample_ext < 2 ^ 31
   \<and> (\<exists>c1 ct. SetKey sample_master sample_other_master CCrypter_new = (True, c1)
          \<and> Encrypt sample_ext c1 [1, 2, 3] = Ok ct \<and> Decrypt sample_ext c1 ct = Ok [1, 2, 3])
   \<and> (\<exists>ct. EncryptSecret sample_ext sample_master [1, 2, 3] 5 = Ok ct
          \<and> DecryptSecret sample_ext sample_master ct 5 = Ok [1, 2, 3])"
proof -
  have h: "length sample_master = WALLET_CRYPTO_KEY_SIZE"
    "length sample_other_master = WALLET_CRYPTO_KEY_SIZE"
    "length [1, 2, 3 :: byte] + crypto_secretbox_MACBYTES sample_ext < 2 ^ 31"
    by (simp_all add: sample_master_def sample_other_master_def WALLET_CRYPTO_KEY_SIZE_def sample_ext_def)
  show ?thesis
    using Encrypt_Decrypt_round_trip [OF sample_secretbox_contract h, of CCrypter_new 5]
      sample_secretbox_contract h
    by blast
qed

subsection \<open>C10: Lock on a plain store\<close>

text \<open>
  C10. On a store in plain mode with both plaintext maps empty \<open>Lock\<close> returns true and
  leaves the store in encrypted mode (with no master key and one notification sent), and
  the store stays in encrypted mode through every later sequence of calls; on a store in
  plain mode with an entry in either plaintext map \<open>Lock\<close> returns false and changes
  nothing.
\<close>

theorem Lock_plain_store:
  assumes "\<not> fUseCrypto s"
  shows "(mapKeys s = [] \<and> mapSpendingKeys s = [] \<longrightarrow>
            Lock s = (True, s\<lparr>fUseCrypto := True, vMasterKey := [],
                               nStatusChanged := Suc (nStatusChanged s)\<rparr>)
            \<and> (\<forall>cs. fUseCrypto (run X cs (snd (Lock s)))))
       \<and> (mapKeys s \<noteq> [] \<or> mapSpendingKeys s \<noteq> [] \<longrightarrow> Lock s = (False, s))"
proof -
  have "fUseCrypto (run X cs (s\<lparr>fUseCrypto := True, vMasterKey := [],
                               nStatusChanged := Suc (nStatusChanged s)\<rparr>))" for cs
    using run_crypted [of "s\<lparr>fUseCrypto := True, vMasterKey := [],
                               nStatusChanged := Suc (nStatusChanged s)\<rparr>" X cs] by simp
  then show ?thesis
    using assms by (auto simp: Lock_def SetCrypted_def)
qed

theorem Lock_plain_store_witness:
  "\<not> fUseCrypto CCryptoKeyStore_new
   \<and> mapKeys CCryptoKeyStore_new = [] \<and> mapSpendingKeys CCryptoKeyStore_new = []
   \<and> Lock CCryptoKeyStore_new
        = (True, CCryptoKeyStore_new\<lparr>fUseCrypto := True, vMasterKey := [],
                   nStatusChanged := Suc (nStatusChanged CCryptoKeyStore_new)\<rparr>)
   \<and> fUseCrypto (run sample_ext [OpUnlock sample_master, OpEncryptKeys sample_master]
                    (snd (Lock CCryptoKeyStore_new)))
   \<and> mapKeys (CCryptoKeyStore_new\<lparr>mapKeys := [(1, sample_key1)]\<rparr>) \<noteq> []
   \<and> Lock (CCryptoKeyStore_new\<lparr>mapKeys := [(1, sample_key1)]\<rparr>)
        = (False, CCryptoKeyStore_new\<lparr>mapKeys := [(1, sample_key1)]\<rparr>)"
proof -
  have h1: "\<not> fUseCrypto CCryptoKeyStore_new"
    and h2: "\<not> fUseCrypto (CCryptoKeyStore_new\<lparr>mapKeys := [(1, sample_key1)]\<rparr>)"
    and e1: "mapKeys CCryptoKeyStore_new = [] \<and> mapSpendingKeys CCryptoKeyStore_new = []"
    and e2: "mapKeys (CCryptoKeyStore_new\<lparr>mapKeys := [(1, sample_key1)]\<rparr>) \<noteq> []"
    by (simp_all add: CCryptoKeyStore_new_def)
  show ?thesis
    using Lock_plain_store [OF h1, of sample_ext] Lock_plain_store [OF h2, of sample_ext] h1 e1 e2
    by blast
qed

end
